theory Spec2Isabelle
  imports Main "HOL-Library.Multiset" "HOL-Library.Extended_Nat"
begin

section \<open>Brute-force open-path travelling salesman (traveling\_salesman.ts)\<close>

text \<open>
  The repository holds two revisions of \<^verbatim>\<open>traveling_salesman.ts\<close>.  The earlier one
  enumerates permutations with its own recursive \<^verbatim>\<open>getPermutations\<close> and selects the
  minimum with \<^verbatim>\<open>Array.prototype.reduce\<close>; the later one is a generator pipeline over
  the \<^verbatim>\<open>itertools-ts\<close> library and adds \<^verbatim>\<open>handRolledTravelingSalesman\<close>.

  Points are values of an arbitrary type \<open>'a\<close>.  Distances are JavaScript numbers; they are
  modelled by any type \<open>'d\<close> that has an addition with zero and a linear order.  Where the
  source writes \<^verbatim>\<open>Infinity\<close> the model writes \<open>top\<close>, the greatest element of the
  order (at the instance \<open>enat\<close> this is \<open>\<infinity>\<close>).  Rounding of floating-point addition
  and NaN are outside the model.
\<close>

subsection \<open>Array primitives\<close>

text \<open>
  A JavaScript array read \<^verbatim>\<open>xs[i]\<close> outside \<^verbatim>\<open>0 .. xs.length - 1\<close> gives
  \<^verbatim>\<open>undefined\<close>.  The value \<^verbatim>\<open>undefined\<close> is passed around as an ordinary
  point \<open>undef\<close>, which the distance function may be asked about.
\<close>

definition js_index :: "'a \<Rightarrow> 'a list \<Rightarrow> int \<Rightarrow> 'a" where
  "js_index undef xs i = (if 0 \<le> i \<and> i < int (length xs) then xs ! nat i else undef)"

text \<open>\<^verbatim>\<open>arr.slice(0, i)\<close> followed by \<^verbatim>\<open>arr.slice(i + 1)\<close>: the array without position \<open>i\<close>.\<close>

definition remaining :: "'a list \<Rightarrow> nat \<Rightarrow> 'a list" where
  "remaining arr i = take i arr @ drop (i + 1) arr"

subsection \<open>Permutation generator\<close>

text \<open>
  \<^verbatim>\<open>getPermutations(arr, size)\<close>: for \<open>size = 0\<close> the single empty permutation; otherwise,
  for every position \<open>i\<close> in increasing order, \<^verbatim>\<open>arr[i]\<close> in front of every permutation
  of the remaining elements.  (The parameter \<^verbatim>\<open>size\<close> is written \<open>sz\<close>; every call in
  the sources passes the length of \<^verbatim>\<open>arr\<close>.)
\<close>

fun getPermutations :: "'a list \<Rightarrow> nat \<Rightarrow> 'a list list" where
  "getPermutations arr 0 = [[]]"
| "getPermutations arr (Suc sz) =
     concat (map (\<lambda>i. map (\<lambda>subPerm. (arr ! i) # subPerm)
                         (getPermutations (remaining arr i) sz))
                 [0..<length arr])"

text \<open>
  Modelled from the spec: \<^verbatim>\<open>permutations\<close> of the library \<^verbatim>\<open>itertools-ts\<close> is imported by
  the later revision and is not part of the sources.  The specification describes the
  generator as recursive selection (for each position, choose each remaining unused
  element as the next pivot and recurse on the remainder) which yields the empty sequence
  once for an empty input; this is the enumeration of \<open>getPermutations\<close>.
\<close>

definition permutations :: "'a list \<Rightarrow> nat \<Rightarrow> 'a list list" where
  "permutations data len = getPermutations data len"

subsection \<open>Route assembly and scoring\<close>

text \<open>
  Modelled from the spec: \<^verbatim>\<open>single.pairwise\<close> of \<^verbatim>\<open>itertools-ts\<close>, on which
  \<^verbatim>\<open>total_distance\<close> iterates, is not part of the sources.  By the specification the
  scorer adds \<^verbatim>\<open>distance(route[i], route[i+1])\<close> for \<open>i\<close> from \<open>0\<close> to
  \<open>length - 2\<close>, left to right, and nothing for a route shorter than two: the pairs are
  the consecutive ones, in order.  (Named \<open>pairwise_list\<close>, as \<open>pairwise\<close> is a constant
  of HOL.)
\<close>

fun pairwise_list :: "'a list \<Rightarrow> ('a \<times> 'a) list" where
  "pairwise_list (a # b # rest) = (a, b) # pairwise_list (b # rest)"
| "pairwise_list [a] = []"
| "pairwise_list [] = []"

definition total_distance :: "'a list \<Rightarrow> ('a \<times> 'a \<Rightarrow> 'd) \<Rightarrow> ('d::{plus,zero})" where
  "total_distance route computeDistance =
     foldl (\<lambda>distance (a, b). distance + computeDistance (a, b)) 0 (pairwise_list route)"

definition startAndEnd :: "'a \<Rightarrow> 'a \<Rightarrow> 'a list \<Rightarrow> 'a list" where
  "startAndEnd start end inner = start # inner @ [end]"

definition generateRoutes :: "'a \<Rightarrow> 'a \<Rightarrow> 'a list list \<Rightarrow> 'a list list" where
  "generateRoutes start end inner = map (\<lambda>innerRoute. startAndEnd start end innerRoute) inner"

definition calculateDistances ::
  "'a list list \<Rightarrow> ('a \<times> 'a \<Rightarrow> 'd) \<Rightarrow> (('d::{plus,zero}) \<times> 'a list) list" where
  "calculateDistances routes computeDistance =
     map (\<lambda>route. (total_distance route computeDistance, route)) routes"

text \<open>
  Modelled from the spec: \<^verbatim>\<open>reduce.toMin(data, compareBy)\<close> of \<^verbatim>\<open>itertools-ts\<close> is not
  part of the sources.  By the specification the reduction scans the candidates in the
  order of generation and replaces the current best only when a strictly smaller score is
  found, never on an equal one; it is the reduction the earlier revision writes out
  (\<open>reduce1\<close> below).  The first datum becomes the carry, and an empty input gives
  \<^verbatim>\<open>undefined\<close> (\<open>None\<close>), which \<^verbatim>\<open>travelingSalesman\<close> tests for.
\<close>

definition toMin_step :: "('x \<Rightarrow> 'k::ord) \<Rightarrow> 'x option \<Rightarrow> 'x \<Rightarrow> 'x option" where
  "toMin_step compareBy carry datum =
     (case carry of
        None \<Rightarrow> Some datum
      | Some c \<Rightarrow> if compareBy datum < compareBy c then Some datum else Some c)"

definition toMin :: "'x list \<Rightarrow> ('x \<Rightarrow> 'k::ord) \<Rightarrow> 'x option" where
  "toMin data compareBy = foldl (toMin_step compareBy) None data"

subsection \<open>The optimizers\<close>

text \<open>
  The pipeline optimizer of the later revision.  Its generators are finite and are
  consumed once, in order; they are modelled by the lists of the values they yield.
\<close>

definition travelingSalesman ::
  "'a list \<Rightarrow> 'a \<Rightarrow> 'a \<Rightarrow> ('a \<times> 'a \<Rightarrow> ('d::{plus,zero,ord})) \<Rightarrow> 'a list" where
  "travelingSalesman innerDestinations start end computeDistance =
     (let destinationsArray = innerDestinations;
          destinationsCount = length destinationsArray;
          permutationsIter = permutations destinationsArray destinationsCount;
          routes = generateRoutes start end permutationsIter;
          distances = calculateDistances routes computeDistance
      in case toMin distances fst of
           None \<Rightarrow> [start, end]
         | Some minRoute \<Rightarrow> snd minRoute)"

text \<open>
  The fused optimizer.  The loop state is the pair \<^verbatim>\<open>(minDistance, minRoute)\<close>, started at
  \<^verbatim>\<open>(Infinity, [])\<close>; the score of a permutation is the total distance of the inner
  route, then plus the distance from \<^verbatim>\<open>start\<close> to \<^verbatim>\<open>route[0]\<close>, then plus the distance
  from \<^verbatim>\<open>route[route.length - 1]\<close> to \<^verbatim>\<open>end\<close>.  For the empty permutation both
  reads are out of range, and the distance function is asked about \<^verbatim>\<open>undefined\<close>.
\<close>

definition handRolled_distance ::
  "'a \<Rightarrow> 'a \<Rightarrow> 'a \<Rightarrow> ('a \<times> 'a \<Rightarrow> 'd) \<Rightarrow> 'a list \<Rightarrow> ('d::{plus,zero})" where
  "handRolled_distance undef start end computeDistance route =
     (let distance = total_distance route computeDistance;
          distance = distance + computeDistance (start, js_index undef route 0);
          distance = distance + computeDistance (js_index undef route (int (length route) - 1), end)
      in distance)"

definition handRolled_step ::
  "'a \<Rightarrow> 'a \<Rightarrow> 'a \<Rightarrow> ('a \<times> 'a \<Rightarrow> 'd) \<Rightarrow> 'd \<times> 'a list \<Rightarrow> 'a list \<Rightarrow> ('d::{plus,zero,ord}) \<times> 'a list" where
  "handRolled_step undef start end computeDistance best route =
     (let (minDistance, minRoute) = best;
          distance = handRolled_distance undef start end computeDistance route
      in if distance < minDistance then (distance, route) else (minDistance, minRoute))"

definition handRolledTravelingSalesman ::
  "'a \<Rightarrow> 'a list \<Rightarrow> 'a \<Rightarrow> 'a \<Rightarrow> ('a \<times> 'a \<Rightarrow> ('d::{plus,zero,ord,top})) \<Rightarrow> 'a list" where
  "handRolledTravelingSalesman undef destinations start end computeDistance =
     (let destinationsCount = length destinations;
          permutationsIter = permutations destinations destinationsCount;
          (minDistance, minRoute) =
             foldl (handRolled_step undef start end computeDistance) (top, []) permutationsIter
      in start # minRoute @ [end])"

subsection \<open>The earlier revision\<close>

text \<open>
  The earlier \<^verbatim>\<open>travelingSalesman\<close> (here \<open>travelingSalesman_v1\<close>) collects the
  distances of a route with an index loop and adds them with \<^verbatim>\<open>reduce\<close> from
  \<^verbatim>\<open>0\<close>; it selects the minimum with \<^verbatim>\<open>reduce\<close> without an initial value, which
  raises a TypeError on an empty array (\<open>None\<close>).
\<close>

definition route_distances :: "'a list \<Rightarrow> ('a \<times> 'a \<Rightarrow> 'd) \<Rightarrow> 'd list" where
  "route_distances route computeDistance =
     map (\<lambda>i. computeDistance (route ! i, route ! (i + 1))) [0..<length route - 1]"

definition route_distance :: "'a list \<Rightarrow> ('a \<times> 'a \<Rightarrow> 'd) \<Rightarrow> ('d::{plus,zero})" where
  "route_distance route computeDistance =
     foldl (\<lambda>a b. a + b) 0 (route_distances route computeDistance)"

fun reduce1 :: "('x \<Rightarrow> 'x \<Rightarrow> 'x) \<Rightarrow> 'x list \<Rightarrow> 'x option" where
  "reduce1 f [] = None"
| "reduce1 f (x # xs) = Some (foldl f x xs)"

definition travelingSalesman_v1 ::
  "'a list \<Rightarrow> 'a \<Rightarrow> 'a \<Rightarrow> ('a \<times> 'a \<Rightarrow> ('d::{plus,zero,ord})) \<Rightarrow> 'a list option" where
  "travelingSalesman_v1 innerDestinations start end computeDistance =
     (let destinationsCount = length innerDestinations;
          permutations = getPermutations innerDestinations destinationsCount;
          routes = map (\<lambda>permutation. start # permutation @ [end]) permutations;
          routeDistances = map (\<lambda>route. (route_distance route computeDistance, route)) routes
      in map_option snd
           (reduce1 (\<lambda>min curr. if fst curr < fst min then curr else min) routeDistances))"

subsection \<open>The order of distance evaluations\<close>

text \<open>
  The scorers once more, instrumented: next to the running sum they keep the list of the
  pairs handed to \<^verbatim>\<open>computeDistance\<close>, in the order of the calls.  Every call is followed
  by the addition of its result, so this is also the order of the additions.
\<close>

definition total_distance_log ::
  "'a list \<Rightarrow> ('a \<times> 'a \<Rightarrow> 'd) \<Rightarrow> ('d::{plus,zero}) \<times> ('a \<times> 'a) list" where
  "total_distance_log route computeDistance =
     foldl (\<lambda>(distance, evaluated) (a, b).
              (distance + computeDistance (a, b), evaluated @ [(a, b)]))
           (0, []) (pairwise_list route)"

definition handRolled_distance_log ::
  "'a \<Rightarrow> 'a \<Rightarrow> 'a \<Rightarrow> ('a \<times> 'a \<Rightarrow> 'd) \<Rightarrow> 'a list \<Rightarrow> ('d::{plus,zero}) \<times> ('a \<times> 'a) list" where
  "handRolled_distance_log undef start end computeDistance route =
     (let (distance, evaluated) = total_distance_log route computeDistance;
          first = (start, js_index undef route 0);
          (distance, evaluated) = (distance + computeDistance first, evaluated @ [first]);
          final = (js_index undef route (int (length route) - 1), end);
          (distance, evaluated) = (distance + computeDistance final, evaluated @ [final])
      in (distance, evaluated))"

subsection \<open>The memoizing wrapper\<close>

text \<open>
  \<^verbatim>\<open>cachedFn(f)\<close> closes over a fresh \<^verbatim>\<open>Map\<close>, which is the state of the wrapper.  A
  \<^verbatim>\<open>Map\<close> does not compare keys as values of the input type.  It compares them with
  SameValueZero: the numbers \<^verbatim>\<open>+0\<close> and \<^verbatim>\<open>-0\<close> are one key, and an array or object is
  the key of its reference, whatever it holds.  The function \<open>key\<close> gives the key of an
  input under this comparison; \<^verbatim>\<open>has\<close>, \<^verbatim>\<open>get\<close> and \<^verbatim>\<open>set\<close> work on \<open>key input\<close>.

  The wrapped function may have effects of its own (the tests wrap a function that
  counts its calls), so it takes the state \<open>world\<close> it works on and returns it; the
  wrapper hands that state through and touches it in no other way.
\<close>

definition cachedFn :: "'k \<rightharpoonup> 'o" where
  "cachedFn = Map.empty"

definition cachedFn_call ::
  "('i \<Rightarrow> 'k) \<Rightarrow> ('i \<Rightarrow> 'w \<Rightarrow> 'o \<times> 'w) \<Rightarrow> 'i \<Rightarrow> ('k \<rightharpoonup> 'o) \<times> 'w \<Rightarrow> 'o \<times> (('k \<rightharpoonup> 'o) \<times> 'w)" where
  "cachedFn_call key f input st =
     (let (cache, world) = st
      in if cache (key input) \<noteq> None then (the (cache (key input)), (cache, world))
         else let (result, world) = f input world
              in (result, (cache(key input \<mapsto> result), world)))"

text \<open>A sequence of calls to one wrapper: the outputs in order and the final state.\<close>

fun cachedFn_calls ::
  "('i \<Rightarrow> 'k) \<Rightarrow> ('i \<Rightarrow> 'w \<Rightarrow> 'o \<times> 'w) \<Rightarrow> 'i list \<Rightarrow> ('k \<rightharpoonup> 'o) \<times> 'w
     \<Rightarrow> 'o list \<times> (('k \<rightharpoonup> 'o) \<times> 'w)" where
  "cachedFn_calls key f [] st = ([], st)"
| "cachedFn_calls key f (input # inputs) st =
     (let (out, st) = cachedFn_call key f input st;
          (outs, st) = cachedFn_calls key f inputs st
      in (out # outs, st))"

text \<open>
  A function that computes \<open>g\<close> and records, in its own state, the inputs it is invoked
  on, as \<^verbatim>\<open>testFn\<close> of the tests counts its invocations in \<^verbatim>\<open>callCount\<close>.  What the
  record holds after a run is what the wrapper has invoked the function on.
\<close>

definition spied :: "('i \<Rightarrow> 'o) \<Rightarrow> 'i \<Rightarrow> 'i list \<Rightarrow> 'o \<times> 'i list" where
  "spied g x invocations = (g x, invocations @ [x])"

text \<open>
  A fresh wrapper around such a function, called on the inputs in order: the outputs of
  the calls, and the inputs on which \<open>g\<close> has been invoked.
\<close>

definition cachedFn_outputs :: "('i \<Rightarrow> 'k) \<Rightarrow> ('i \<Rightarrow> 'o) \<Rightarrow> 'i list \<Rightarrow> 'o list" where
  "cachedFn_outputs key g inputs = fst (cachedFn_calls key (spied g) inputs (cachedFn, []))"

definition cachedFn_invocations :: "('i \<Rightarrow> 'k) \<Rightarrow> ('i \<Rightarrow> 'o) \<Rightarrow> 'i list \<Rightarrow> 'i list" where
  "cachedFn_invocations key g inputs =
     snd (snd (cachedFn_calls key (spied g) inputs (cachedFn, [])))"

text \<open>
  JavaScript numbers as far as the comparison of keys goes: the integers, \<open>Num 0\<close> being
  \<^verbatim>\<open>+0\<close>, and \<^verbatim>\<open>-0\<close>.  SameValueZero takes \<^verbatim>\<open>-0\<close> to the key of \<^verbatim>\<open>+0\<close>.
\<close>

datatype jsnum = Num int | NegZero

definition sameValueZero :: "jsnum \<Rightarrow> jsnum" where
  "sameValueZero x = (case x of NegZero \<Rightarrow> Num 0 | Num n \<Rightarrow> Num n)"

text \<open>
  For the proofs: the inputs of a sequence on which the wrapped function is invoked when
  the keys \<open>seen\<close> are in the map already, and the map after the sequence.
\<close>

fun first_calls :: "('i \<Rightarrow> 'k) \<Rightarrow> 'k set \<Rightarrow> 'i list \<Rightarrow> 'i list" where
  "first_calls key seen [] = []"
| "first_calls key seen (x # xs) =
     (if key x \<in> seen then first_calls key seen xs
      else x # first_calls key (insert (key x) seen) xs)"

definition filled :: "('i \<Rightarrow> 'k) \<Rightarrow> ('i \<Rightarrow> 'o) \<Rightarrow> ('k \<rightharpoonup> 'o) \<Rightarrow> 'i list \<Rightarrow> ('k \<rightharpoonup> 'o)" where
  "filled key g cache xs k =
     (case cache k of
        Some v \<Rightarrow> Some v
      | None \<Rightarrow> map_option g (find (\<lambda>y. key y = k) xs))"

subsection \<open>A distance function that may fail\<close>

text \<open>
  An exception thrown by \<^verbatim>\<open>computeDistance\<close> is a value \<open>Inl err\<close>; neither optimizer
  has a \<^verbatim>\<open>try\<close>, so the first failing call ends the run with that value.
\<close>

fun foldE :: "('s \<Rightarrow> 'x \<Rightarrow> 'e + 's) \<Rightarrow> 's \<Rightarrow> 'x list \<Rightarrow> 'e + 's" where
  "foldE f s [] = Inr s"
| "foldE f s (x # xs) = (case f s x of Inl err \<Rightarrow> Inl err | Inr s' \<Rightarrow> foldE f s' xs)"

definition addE :: "('d::plus) \<Rightarrow> 'e + 'd \<Rightarrow> 'e + 'd" where
  "addE distance r = (case r of Inl err \<Rightarrow> Inl err | Inr v \<Rightarrow> Inr (distance + v))"

definition total_distanceE :: "'a list \<Rightarrow> ('a \<times> 'a \<Rightarrow> 'e + 'd) \<Rightarrow> 'e + ('d::{plus,zero})" where
  "total_distanceE route computeDistance =
     foldE (\<lambda>distance (a, b). addE distance (computeDistance (a, b))) 0 (pairwise_list route)"

definition travelingSalesmanE ::
  "'a list \<Rightarrow> 'a \<Rightarrow> 'a \<Rightarrow> ('a \<times> 'a \<Rightarrow> 'e + ('d::{plus,zero,ord})) \<Rightarrow> 'e + 'a list" where
  "travelingSalesmanE innerDestinations start end computeDistance =
     (let destinationsArray = innerDestinations;
          destinationsCount = length destinationsArray;
          permutationsIter = permutations destinationsArray destinationsCount;
          routes = generateRoutes start end permutationsIter
      in case foldE (\<lambda>carry route.
                      case total_distanceE route computeDistance of
                        Inl err \<Rightarrow> Inl err
                      | Inr distance \<Rightarrow> Inr (toMin_step fst carry (distance, route)))
                    None routes of
           Inl err \<Rightarrow> Inl err
         | Inr None \<Rightarrow> Inr [start, end]
         | Inr (Some minRoute) \<Rightarrow> Inr (snd minRoute))"

definition handRolled_distanceE ::
  "'a \<Rightarrow> 'a \<Rightarrow> 'a \<Rightarrow> ('a \<times> 'a \<Rightarrow> 'e + 'd) \<Rightarrow> 'a list \<Rightarrow> 'e + ('d::{plus,zero})" where
  "handRolled_distanceE undef start end computeDistance route =
     (case total_distanceE route computeDistance of
        Inl err \<Rightarrow> Inl err
      | Inr distance \<Rightarrow>
          (case addE distance (computeDistance (start, js_index undef route 0)) of
             Inl err \<Rightarrow> Inl err
           | Inr distance \<Rightarrow>
               addE distance
                 (computeDistance (js_index undef route (int (length route) - 1), end))))"

definition handRolledTravelingSalesmanE ::
  "'a \<Rightarrow> 'a list \<Rightarrow> 'a \<Rightarrow> 'a \<Rightarrow> ('a \<times> 'a \<Rightarrow> 'e + ('d::{plus,zero,ord,top})) \<Rightarrow> 'e + 'a list" where
  "handRolledTravelingSalesmanE undef destinations start end computeDistance =
     (let destinationsCount = length destinations;
          permutationsIter = permutations destinations destinationsCount
      in case foldE (\<lambda>best route.
                      case handRolled_distanceE undef start end computeDistance route of
                        Inl err \<Rightarrow> Inl err
                      | Inr distance \<Rightarrow>
                          Inr (if distance < fst best then (distance, route) else best))
                    (top, []) permutationsIter of
           Inl err \<Rightarrow> Inl err
         | Inr (minDistance, minRoute) \<Rightarrow> Inr (start # minRoute @ [end]))"

text \<open>The pairs each optimizer hands to the distance function, in the order of the calls.\<close>

definition travelingSalesman_queries :: "'a list \<Rightarrow> 'a \<Rightarrow> 'a \<Rightarrow> ('a \<times> 'a) list" where
  "travelingSalesman_queries innerDestinations start end =
     concat (map (\<lambda>p. pairwise_list (startAndEnd start end p))
                 (permutations innerDestinations (length innerDestinations)))"

definition handRolled_queries :: "'a \<Rightarrow> 'a list \<Rightarrow> 'a \<Rightarrow> 'a \<Rightarrow> ('a \<times> 'a) list" where
  "handRolled_queries undef destinations start end =
     concat (map (\<lambda>p. pairwise_list p @
                        [(start, js_index undef p 0),
                         (js_index undef p (int (length p) - 1), end)])
                 (permutations destinations (length destinations)))"

text \<open>The error of the first failing call in a sequence of results, if any call fails.\<close>

fun first_error :: "('e + 'd) list \<Rightarrow> 'e option" where
  "first_error [] = None"
| "first_error (Inl err # rs) = Some err"
| "first_error (Inr v # rs) = first_error rs"

subsection \<open>Arrays in a store\<close>

text \<open>
  For the effect on the caller's array the functions are modelled once more, over an
  explicit store.  An array is a list of values, a value is a point or a reference to an
  array, and the store is the list of all arrays, an array's reference being its position.
  Array literals, spreads, \<^verbatim>\<open>slice\<close> and \<^verbatim>\<open>Array.from\<close> allocate a new array at the end of
  the store; \<^verbatim>\<open>push\<close> writes into the array it is called on.  Loops run over the
  elements, or the length, that the array they iterate has on entry.
\<close>

datatype 'a jsval = Point 'a | Ref nat

type_synonym 'a store = "'a jsval list list"

fun the_ref :: "'a jsval \<Rightarrow> nat" where
  "the_ref (Ref r) = r"

fun the_point :: "'a jsval \<Rightarrow> 'a" where
  "the_point (Point x) = x"

definition new_array :: "'a jsval list \<Rightarrow> 'a store \<Rightarrow> nat \<times> 'a store" where
  "new_array elems h = (length h, h @ [elems])"

definition array_push :: "nat \<Rightarrow> 'a jsval \<Rightarrow> 'a store \<Rightarrow> 'a store" where
  "array_push r v h = h[r := h ! r @ [v]]"

text \<open>
  \<^verbatim>\<open>getPermutations\<close>: the body of the inner loop,
  \<^verbatim>\<open>permutations.push([current, ...subPerm])\<close>, and the function.
\<close>

definition push_permutation :: "nat \<Rightarrow> 'a jsval \<Rightarrow> 'a store \<Rightarrow> 'a jsval \<Rightarrow> 'a store" where
  "push_permutation target current h subPerm =
     (let (perm, h) = new_array (current # h ! the_ref subPerm) h
      in array_push target (Ref perm) h)"

fun getPermutations_st :: "nat \<Rightarrow> nat \<Rightarrow> 'a store \<Rightarrow> nat \<times> 'a store" where
  "getPermutations_st arr 0 h =
     (let (empty, h) = new_array [] h in new_array [Ref empty] h)"
| "getPermutations_st arr (Suc sz) h =
     (let (permutations, h) = new_array [] h;
          h = foldl (\<lambda>h i.
                 let current = h ! arr ! i;
                     (front, h) = new_array (take i (h ! arr)) h;
                     (back, h) = new_array (drop (i + 1) (h ! arr)) h;
                     (remaining, h) = new_array (h ! front @ h ! back) h;
                     (subPermutations, h) = getPermutations_st remaining sz h
                 in foldl (push_permutation permutations current) h (h ! subPermutations))
               h [0..<length (h ! arr)]
      in (permutations, h))"

text \<open>
  Modelled from the spec: \<^verbatim>\<open>permutations\<close> of \<^verbatim>\<open>itertools-ts\<close> over the store.  The
  specification describes a recursive selection that gives, on every call, a fresh and
  independent sequence and can be restarted on the same input: the selection of
  \<open>getPermutations_st\<close>, whose result array stands for the sequence the generator yields.
\<close>

definition permutations_st :: "nat \<Rightarrow> nat \<Rightarrow> 'a store \<Rightarrow> nat \<times> 'a store" where
  "permutations_st data len h = getPermutations_st data len h"

text \<open>
  The pipeline optimizer: \<^verbatim>\<open>Array.from(innerDestinations)\<close>, the permutations of the
  copy, and for every permutation \<^verbatim>\<open>Array.from\<close> of the assembled route
  (\<open>calculateDistances_step\<close>, one round of the loop of \<^verbatim>\<open>calculateDistances\<close> over
  \<^verbatim>\<open>generateRoutes\<close>).
\<close>

definition calculateDistances_step ::
  "'a \<Rightarrow> 'a \<Rightarrow> ('a \<times> 'a \<Rightarrow> ('d::{plus,zero})) \<Rightarrow> ('d \<times> nat) list \<times> 'a store \<Rightarrow> 'a jsval
     \<Rightarrow> ('d \<times> nat) list \<times> 'a store" where
  "calculateDistances_step start end computeDistance acc innerRoute =
     (let (distances, h) = acc;
          (routeArray, h) = new_array (Point start # h ! the_ref innerRoute @ [Point end]) h;
          distance = total_distance (map the_point (h ! routeArray)) computeDistance
      in (distances @ [(distance, routeArray)], h))"

definition travelingSalesman_st ::
  "nat \<Rightarrow> 'a \<Rightarrow> 'a \<Rightarrow> ('a \<times> 'a \<Rightarrow> ('d::{plus,zero,ord})) \<Rightarrow> 'a store \<Rightarrow> nat \<times> 'a store" where
  "travelingSalesman_st innerDestinations start end computeDistance h =
     (let (destinationsArray, h) = new_array (h ! innerDestinations) h;
          destinationsCount = length (h ! destinationsArray);
          (permutationsIter, h) = permutations_st destinationsArray destinationsCount h;
          (distances, h) =
             foldl (calculateDistances_step start end computeDistance) ([], h)
                   (h ! permutationsIter)
      in case toMin distances fst of
           None \<Rightarrow> new_array [Point start, Point end] h
         | Some minRoute \<Rightarrow> (snd minRoute, h))"

text \<open>
  The fused optimizer: \<^verbatim>\<open>minRoute\<close> is a reference, first to a new empty array and then
  to the best permutation so far (\<open>handRolled_st_step\<close> is one round of the loop); the
  result is the new array \<^verbatim>\<open>[start, ...minRoute, end]\<close>.
\<close>

definition handRolled_st_step ::
  "'a \<Rightarrow> 'a \<Rightarrow> 'a \<Rightarrow> ('a \<times> 'a \<Rightarrow> ('d::{plus,zero,ord})) \<Rightarrow> 'a store \<Rightarrow> 'd \<times> nat \<Rightarrow> 'a jsval
     \<Rightarrow> 'd \<times> nat" where
  "handRolled_st_step undef start end computeDistance h best route =
     (let (minDistance, minRoute) = best;
          distance = handRolled_distance undef start end computeDistance
                       (map the_point (h ! the_ref route))
      in if distance < minDistance then (distance, the_ref route)
         else (minDistance, minRoute))"

definition handRolledTravelingSalesman_st ::
  "'a \<Rightarrow> nat \<Rightarrow> 'a \<Rightarrow> 'a \<Rightarrow> ('a \<times> 'a \<Rightarrow> ('d::{plus,zero,ord,top})) \<Rightarrow> 'a store \<Rightarrow> nat \<times> 'a store" where
  "handRolledTravelingSalesman_st undef destinations start end computeDistance h =
     (let (minRoute, h) = new_array [] h;
          destinationsCount = length (h ! destinations);
          (permutationsIter, h) = permutations_st destinations destinationsCount h;
          (minDistance, minRoute) =
             foldl (handRolled_st_step undef start end computeDistance h) (top, minRoute)
                   (h ! permutationsIter)
      in new_array (Point start # h ! minRoute @ [Point end]) h)"

text \<open>Every array of \<open>h\<close> is in \<open>h'\<close>, under the same reference and with the same elements.\<close>

definition unchanged :: "'a store \<Rightarrow> 'a store \<Rightarrow> bool" where
  "unchanged h h' \<longleftrightarrow> length h \<le> length h' \<and> take (length h) h' = h"

text \<open>
  The array \<open>outer\<close> of the store \<open>h\<close> holds references to arrays allocated at or after
  position \<open>n\<close>, whose contents are, in order, the lists \<open>xss\<close>.
\<close>

definition arrays_at :: "nat \<Rightarrow> 'a store \<Rightarrow> nat \<Rightarrow> 'a jsval list list \<Rightarrow> bool" where
  "arrays_at n h outer xss \<longleftrightarrow>
     n \<le> outer \<and> outer < length h
     \<and> (\<exists>rs. h ! outer = map Ref rs
            \<and> (\<forall>r \<in> set rs. n \<le> r \<and> r < length h \<and> r \<noteq> outer)
            \<and> map (\<lambda>r. h ! r) rs = xss)"

section \<open>Properties\<close>

subsection \<open>The permutation generator\<close>

lemma length_remaining: "i < length arr \<Longrightarrow> length (remaining arr i) = length arr - 1"
  by (simp add: remaining_def)

lemma mset_remaining: "i < length arr \<Longrightarrow> add_mset (arr ! i) (mset (remaining arr i)) = mset arr"
proof -
  assume i: "i < length arr"
  have "mset arr = mset (take i arr @ arr ! i # drop (Suc i) arr)"
    using id_take_nth_drop [OF i] by simp
  then show ?thesis by (simp add: remaining_def)
qed

lemma remaining_map: "remaining (map f arr) i = map f (remaining arr i)"
  by (simp add: remaining_def take_map drop_map)

lemma getPermutations_length_aux:
  "length xs = n \<Longrightarrow> length (getPermutations xs n) = fact n"
proof (induction n arbitrary: xs)
  case 0
  then show ?case by simp
next
  case (Suc n)
  have "length (getPermutations (remaining xs i) n) = fact n" if "i < length xs" for i
    using that Suc.prems by (intro Suc.IH) (simp add: length_remaining)
  then have eq: "map (\<lambda>i. length (getPermutations (remaining xs i) n)) [0..<length xs]
     = map (\<lambda>i. fact n) [0..<length xs]"
    by (intro map_cong) auto
  have "length (getPermutations xs (Suc n))
      = sum_list (map (\<lambda>i. length (getPermutations (remaining xs i) n)) [0..<length xs])"
    by (simp add: length_concat comp_def)
  also have "\<dots> = length xs * fact n"
    unfolding eq by (simp add: sum_list_triv)
  finally show ?case by (simp add: Suc.prems)
qed

lemma getPermutations_mset_aux:
  "length xs = n \<Longrightarrow> p \<in> set (getPermutations xs n) \<Longrightarrow> mset p = mset xs"
proof (induction n arbitrary: xs p)
  case 0
  then show ?case by simp
next
  case (Suc n)
  from Suc.prems(2) obtain i q where i: "i < length xs"
    and q: "q \<in> set (getPermutations (remaining xs i) n)" and p: "p = xs ! i # q"
    by auto
  have "mset q = mset (remaining xs i)"
    using Suc.IH [of "remaining xs i" q] Suc.prems(1) i q by (simp add: length_remaining)
  then show ?case using p mset_remaining [OF i] by simp
qed

lemma getPermutations_map:
  "getPermutations (map f xs) n = map (map f) (getPermutations xs n)"
proof (induction n arbitrary: xs)
  case 0
  then show ?case by simp
next
  case (Suc n)
  have "getPermutations (map f xs) (Suc n)
      = concat (map (\<lambda>i. map (\<lambda>subPerm. map f xs ! i # subPerm)
                 (getPermutations (remaining (map f xs) i) n)) [0..<length xs])"
    by simp
  also have "\<dots> = concat (map (\<lambda>i. map (map f) (map (\<lambda>subPerm. xs ! i # subPerm)
                 (getPermutations (remaining xs i) n))) [0..<length xs])"
    by (intro arg_cong [where f = concat] map_cong) (auto simp: remaining_map Suc.IH)
  also have "\<dots> = map (map f) (getPermutations xs (Suc n))"
    by (simp add: map_concat comp_def)
  finally show ?case .
qed

lemma getPermutations_complete_aux:
  "mset p = mset xs \<Longrightarrow> p \<in> set (getPermutations xs (length p))"
proof (induction p arbitrary: xs)
  case Nil
  then show ?case by simp
next
  case (Cons y ys)
  have "y \<in> set xs" using Cons.prems by (metis list.set_intros(1) set_mset_mset)
  then obtain i where i: "i < length xs" and y: "xs ! i = y"
    by (auto simp: in_set_conv_nth)
  have "add_mset y (mset (remaining xs i)) = add_mset y (mset ys)"
    using mset_remaining [OF i] y Cons.prems by simp
  then have "mset ys = mset (remaining xs i)" by simp
  then have "ys \<in> set (getPermutations (remaining xs i) (length ys))"
    by (rule Cons.IH)
  then show ?case using i y by auto
qed

lemma getPermutations_set:
  "set (getPermutations xs (length xs)) = {p. mset p = mset xs}"
proof (intro set_eqI iffI)
  fix p assume "p \<in> set (getPermutations xs (length xs))"
  then show "p \<in> {p. mset p = mset xs}" by (simp add: getPermutations_mset_aux)
next
  fix p assume "p \<in> {p. mset p = mset xs}"
  then have m: "mset p = mset xs" by simp
  then have "length p = length xs" by (metis size_mset)
  then show "p \<in> set (getPermutations xs (length xs))"
    using getPermutations_complete_aux [OF m] by simp
qed

lemma getPermutations_distinct_aux:
  "length xs = n \<Longrightarrow> distinct xs \<Longrightarrow> distinct (getPermutations xs n)"
proof (induction n arbitrary: xs)
  case 0
  then show ?case by simp
next
  case (Suc n)
  let ?F = "\<lambda>i. map (\<lambda>subPerm. xs ! i # subPerm) (getPermutations (remaining xs i) n)"
  have len: "length (remaining xs i) = n" if "i < length xs" for i
    using that Suc.prems by (simp add: length_remaining)
  have dr: "distinct (remaining xs i)" for i
  proof -
    have "set (take i xs) \<inter> set (drop i xs) = {}"
      using distinct_append [of "take i xs" "drop i xs"] Suc.prems(2) by simp
    moreover have "set (drop (Suc i) xs) \<subseteq> set (drop i xs)"
      by (rule set_drop_subset_set_drop) simp
    ultimately show ?thesis
      using Suc.prems(2) by (auto simp: remaining_def)
  qed
  have ne: "?F i \<noteq> []" if "i < length xs" for i
    using getPermutations_length_aux [OF len [OF that]] by auto
  have hd: "p \<in> set (?F i) \<Longrightarrow> hd p = xs ! i" for p i
    by auto
  have same: "i = j" if "i < length xs" "j < length xs" "p \<in> set (?F i)" "p \<in> set (?F j)" for i j p
  proof -
    have "xs ! i = xs ! j" using hd [OF that(3)] hd [OF that(4)] by simp
    then show ?thesis using nth_eq_iff_index_eq [OF Suc.prems(2) that(1,2)] by simp
  qed
  have inj: "inj_on ?F {0..<length xs}"
  proof (rule inj_onI)
    fix i j assume i: "i \<in> {0..<length xs}" and j: "j \<in> {0..<length xs}" and eq: "?F i = ?F j"
    from i have "?F i \<noteq> []" by (intro ne) simp
    then obtain p where "p \<in> set (?F i)" by (meson last_in_set)
    then show "i = j" using same [of i j p] i j eq by simp
  qed
  have d1: "distinct (map ?F [0..<length xs])"
    using inj by (simp add: distinct_map)
  have d2: "distinct ys" if "ys \<in> set (map ?F [0..<length xs])" for ys
  proof -
    from that obtain i where i: "i < length xs" and ys: "ys = ?F i" by auto
    have "distinct (getPermutations (remaining xs i) n)"
      using len [OF i] dr by (rule Suc.IH)
    then show ?thesis unfolding ys by (simp add: distinct_map inj_on_def)
  qed
  have d3: "set ys \<inter> set zs = {}"
    if "ys \<in> set (map ?F [0..<length xs])" "zs \<in> set (map ?F [0..<length xs])" "ys \<noteq> zs" for ys zs
  proof -
    from that obtain i j where i: "i < length xs" "ys = ?F i" and j: "j < length xs" "zs = ?F j"
      by auto
    have "i \<noteq> j" using i j that(3) by auto
    then show ?thesis using same [OF i(1) j(1)] i(2) j(2) by blast
  qed
  show ?case
    using distinct_concat [OF d1 d2 d3] by simp
qed

subsection \<open>The route scorer\<close>

lemma length_pairwise: "length (pairwise_list route) = length route - 1"
  by (induction route rule: pairwise_list.induct) auto

lemma nth_pairwise: "i < length route - 1 \<Longrightarrow> pairwise_list route ! i = (route ! i, route ! (i + 1))"
proof (induction route arbitrary: i rule: pairwise_list.induct)
  case (1 a b rest)
  then show ?case by (cases i) auto
qed auto

lemma pairwise_conv_nth:
  "pairwise_list route = map (\<lambda>i. (route ! i, route ! (i + 1))) [0..<length route - 1]"
  by (rule nth_equalityI) (simp_all add: length_pairwise nth_pairwise)

lemma pairwise_Cons: "p \<noteq> [] \<Longrightarrow> pairwise_list (s # p) = (s, hd p) # pairwise_list p"
  by (cases p) auto

lemma pairwise_snoc: "p \<noteq> [] \<Longrightarrow> pairwise_list (p @ [e]) = pairwise_list p @ [(last p, e)]"
  by (induction p rule: pairwise_list.induct) auto

lemma pairwise_startAndEnd:
  "p \<noteq> [] \<Longrightarrow> pairwise_list (startAndEnd s e p) = (s, hd p) # pairwise_list p @ [(last p, e)]"
  by (simp add: startAndEnd_def pairwise_Cons pairwise_snoc)

lemma foldl_add_sum_list:
  fixes a :: "'d::monoid_add"
  shows "foldl (\<lambda>acc q. acc + f q) a qs = a + sum_list (map f qs)"
  by (induction qs arbitrary: a) (simp_all add: add.assoc)

lemma total_distance_sum_list:
  fixes d :: "'a \<times> 'a \<Rightarrow> 'd::monoid_add"
  shows "total_distance route d = sum_list (map d (pairwise_list route))"
proof -
  have "(\<lambda>distance (a, b). distance + d (a, b)) = (\<lambda>distance q. distance + d q)"
    by (simp add: fun_eq_iff)
  then show ?thesis
    by (simp add: total_distance_def foldl_add_sum_list)
qed

lemma route_distance_eq_total_distance:
  "route_distance route d = total_distance route d"
proof -
  have "(\<lambda>distance (a, b). distance + d (a, b)) = (\<lambda>distance q. distance + d q)"
    by (simp add: fun_eq_iff)
  then show ?thesis
    by (simp add: total_distance_def route_distance_def route_distances_def
        pairwise_conv_nth foldl_map)
qed

lemma total_distance_sum:
  fixes d :: "'a \<times> 'a \<Rightarrow> 'd::comm_monoid_add"
  shows "total_distance route d = (\<Sum>i<length route - 1. d (route ! i, route ! (i + 1)))"
proof -
  have "total_distance route d
      = sum_list (map (\<lambda>i. d (route ! i, route ! (i + 1))) [0..<length route - 1])"
    by (simp add: total_distance_sum_list pairwise_conv_nth comp_def)
  also have "\<dots> = sum (\<lambda>i. d (route ! i, route ! (i + 1))) (set [0..<length route - 1])"
    by (rule interv_sum_list_conv_sum_set_nat)
  finally show ?thesis by (simp add: lessThan_atLeast0)
qed

text \<open>
  Claim C7.  For every route and every distance function the route scorer, in the form of
  \<^verbatim>\<open>total_distance\<close> and in the form of the index loop of the earlier revision, returns
  the sum of the distances between \<open>route[i]\<close> and \<open>route[i+1]\<close> for \<open>i\<close> from \<open>0\<close> to
  \<open>length - 2\<close>; for a route shorter than two it returns zero.
\<close>

theorem route_scorer_sum:
  fixes d :: "'a \<times> 'a \<Rightarrow> 'd::comm_monoid_add"
  shows "total_distance route d = (\<Sum>i<length route - 1. d (route ! i, route ! (i + 1)))
       \<and> route_distance route d = (\<Sum>i<length route - 1. d (route ! i, route ! (i + 1)))
       \<and> (length route < 2 \<longrightarrow> total_distance route d = 0 \<and> route_distance route d = 0)"
proof -
  have "length route < 2 \<Longrightarrow> length route - 1 = 0" by simp
  then show ?thesis
    by (auto simp add: route_distance_eq_total_distance total_distance_sum)
qed

theorem route_scorer_sum_witness:
  "total_distance [0, 3, 1 :: int] (\<lambda>(a, b). \<bar>a - b\<bar>) = 5
   \<and> route_distance [0, 3, 1 :: int] (\<lambda>(a, b). \<bar>a - b\<bar>) = 5
   \<and> length [7 :: int] < 2 \<and> total_distance [7 :: int] (\<lambda>(a, b). \<bar>a - b\<bar>) = 0
   \<and> route_distance [7 :: int] (\<lambda>(a, b). \<bar>a - b\<bar>) = 0"
  using route_scorer_sum [of "[0, 3, 1 :: int]" "\<lambda>(a, b). \<bar>a - b\<bar>"]
    route_scorer_sum [of "[7 :: int]" "\<lambda>(a, b). \<bar>a - b\<bar>"]
  by (simp add: lessThan_Suc numeral_2_eq_2)

subsection \<open>Minimum selection\<close>

lemma toMin_Nil: "toMin [] f = None"
  by (simp add: toMin_def)

lemma toMin_snoc: "toMin (xs @ [x]) f = toMin_step f (toMin xs f) x"
  by (simp add: toMin_def)

lemma toMin_eq_None: "toMin xs f = None \<longleftrightarrow> xs = []"
proof (cases xs rule: rev_cases)
  case Nil
  then show ?thesis by (simp add: toMin_Nil)
next
  case (snoc ys y)
  then show ?thesis
    by (cases "toMin ys f") (simp_all add: toMin_snoc toMin_step_def)
qed

lemma toMin_in_set: "toMin xs f = Some x \<Longrightarrow> x \<in> set xs"
proof (induction xs arbitrary: x rule: rev_induct)
  case Nil
  then show ?case by (simp add: toMin_Nil)
next
  case (snoc y ys)
  show ?case
  proof (cases "toMin ys f")
    case None
    then show ?thesis using snoc.prems by (simp add: toMin_snoc toMin_step_def)
  next
    case (Some c)
    then have "c \<in> set ys" by (rule snoc.IH)
    then show ?thesis using snoc.prems Some
      by (simp add: toMin_snoc toMin_step_def split: if_splits)
  qed
qed

lemma toMin_map: "toMin (map g xs) f = map_option g (toMin xs (\<lambda>x. f (g x)))"
proof (induction xs rule: rev_induct)
  case Nil
  then show ?case by (simp add: toMin_Nil)
next
  case (snoc y ys)
  then show ?case
    by (cases "toMin ys (\<lambda>x. f (g x))") (simp_all add: toMin_snoc toMin_step_def)
qed

lemma toMin_cong: "(\<And>x. x \<in> set xs \<Longrightarrow> f x = g x) \<Longrightarrow> toMin xs f = toMin xs g"
proof (induction xs rule: rev_induct)
  case Nil
  then show ?case by (simp add: toMin_Nil)
next
  case (snoc x xs)
  then have eq: "toMin xs f = toMin xs g" and fx: "f x = g x" by simp_all
  show ?case
  proof (cases "toMin xs g")
    case None
    then show ?thesis using eq by (simp add: toMin_snoc toMin_step_def)
  next
    case (Some c)
    then have "c \<in> set xs" by (rule toMin_in_set)
    then have "f c = g c" using snoc.prems by simp
    then show ?thesis using eq Some fx by (simp add: toMin_snoc toMin_step_def)
  qed
qed

text \<open>The carry of \<open>toMin\<close> is the first element, in list order, whose key is minimal.\<close>

lemma toMin_first_min:
  fixes f :: "'x \<Rightarrow> 'k::linorder"
  assumes "xs \<noteq> []"
  shows "\<exists>i<length xs. toMin xs f = Some (xs ! i)
           \<and> (\<forall>j<length xs. f (xs ! i) \<le> f (xs ! j))
           \<and> (\<forall>j<i. f (xs ! i) < f (xs ! j))"
  using assms
proof (induction xs rule: rev_nonempty_induct)
  case (single x)
  then show ?case by (simp add: toMin_def toMin_step_def)
next
  case (snoc x xs)
  then obtain i where i: "i < length xs" and m: "toMin xs f = Some (xs ! i)"
    and le: "\<forall>j<length xs. f (xs ! i) \<le> f (xs ! j)"
    and less: "\<forall>j<i. f (xs ! i) < f (xs ! j)"
    by blast
  have nth_old: "(xs @ [x]) ! j = xs ! j" if "j < length xs" for j
    using that by (simp add: nth_append)
  have nth_new: "(xs @ [x]) ! length xs = x"
    by simp
  show ?case
  proof (cases "f x < f (xs ! i)")
    case True
    have 1: "toMin (xs @ [x]) f = Some ((xs @ [x]) ! length xs)"
      using m True by (simp add: toMin_snoc toMin_step_def)
    have 2: "f ((xs @ [x]) ! length xs) \<le> f ((xs @ [x]) ! j)" if "j < length (xs @ [x])" for j
    proof (cases "j < length xs")
      case True
      have "f x < f (xs ! i)" by fact
      also have "f (xs ! i) \<le> f (xs ! j)" using le True by simp
      finally show ?thesis using True by (simp add: nth_old)
    next
      case False
      then have "j = length xs" using that by simp
      then show ?thesis by simp
    qed
    have 3: "f ((xs @ [x]) ! length xs) < f ((xs @ [x]) ! j)" if "j < length xs" for j
    proof -
      have "f x < f (xs ! i)" by fact
      also have "f (xs ! i) \<le> f (xs ! j)" using le that by simp
      finally show ?thesis using that by (simp add: nth_old)
    qed
    show ?thesis
      using 1 2 3 by (intro exI [of _ "length xs"]) simp
  next
    case False
    have 1: "toMin (xs @ [x]) f = Some ((xs @ [x]) ! i)"
      using m False i by (simp add: toMin_snoc toMin_step_def nth_old)
    have 2: "f ((xs @ [x]) ! i) \<le> f ((xs @ [x]) ! j)" if "j < length (xs @ [x])" for j
    proof (cases "j < length xs")
      case True
      then show ?thesis using le i by (simp add: nth_old)
    next
      case F: False
      then have "j = length xs" using that by simp
      then show ?thesis using False i by (simp add: nth_old)
    qed
    have 3: "f ((xs @ [x]) ! i) < f ((xs @ [x]) ! j)" if "j < i" for j
      using less that i by (simp add: nth_old)
    show ?thesis
      using 1 2 3 i by (intro exI [of _ i]) simp
  qed
qed

text \<open>\<^verbatim>\<open>reduce\<close> without an initial value, with the strict comparison, is \<open>toMin\<close>.\<close>

lemma foldl_toMin_step_Some:
  "foldl (toMin_step f) (Some c) xs
     = Some (foldl (\<lambda>min curr. if f curr < f min then curr else min) c xs)"
  by (induction xs arbitrary: c) (simp_all add: toMin_step_def)

lemma reduce1_eq_toMin:
  "reduce1 (\<lambda>min curr. if f curr < f min then curr else min) xs = toMin xs f"
  by (cases xs) (simp_all add: toMin_def toMin_step_def foldl_toMin_step_Some)

lemma permutations_nonempty: "permutations xs (length xs) \<noteq> []"
proof -
  have "length (permutations xs (length xs)) = fact (length xs)"
    by (simp add: permutations_def getPermutations_length_aux)
  then have "0 < length (permutations xs (length xs))"
    by (simp only: fact_gt_zero)
  then show ?thesis by simp
qed

lemma permutations_mset: "p \<in> set (permutations xs (length xs)) \<Longrightarrow> mset p = mset xs"
  by (simp add: permutations_def getPermutations_mset_aux)

text \<open>The pipeline optimizer, as a selection among the permutations.\<close>

lemma travelingSalesman_toMin:
  "travelingSalesman xs s e d =
     (case toMin (permutations xs (length xs)) (\<lambda>p. total_distance (startAndEnd s e p) d) of
        None \<Rightarrow> [s, e]
      | Some p \<Rightarrow> startAndEnd s e p)"
  by (simp add: travelingSalesman_def Let_def calculateDistances_def generateRoutes_def
      toMin_map comp_def split: option.splits)

lemma travelingSalesman_v1_eq:
  "travelingSalesman_v1 xs s e d = Some (travelingSalesman xs s e d)"
proof -
  let ?T = "toMin (calculateDistances (generateRoutes s e (permutations xs (length xs))) d) fst"
  have r: "(\<lambda>permutation. s # permutation @ [e]) = (\<lambda>innerRoute. startAndEnd s e innerRoute)"
    by (simp add: fun_eq_iff startAndEnd_def)
  have v1: "travelingSalesman_v1 xs s e d = map_option snd ?T"
    unfolding travelingSalesman_v1_def Let_def r reduce1_eq_toMin
    by (simp add: calculateDistances_def generateRoutes_def permutations_def
        route_distance_eq_total_distance)
  have v2: "travelingSalesman xs s e d = (case ?T of None \<Rightarrow> [s, e] | Some m \<Rightarrow> snd m)"
    by (simp add: travelingSalesman_def Let_def)
  have "?T \<noteq> None"
    by (simp add: toMin_eq_None calculateDistances_def generateRoutes_def permutations_nonempty)
  then show ?thesis
    unfolding v1 v2 by (cases ?T) simp_all
qed

lemma travelingSalesman_in_permutations:
  "\<exists>p \<in> set (permutations xs (length xs)). travelingSalesman xs s e d = startAndEnd s e p"
proof -
  let ?T = "toMin (permutations xs (length xs)) (\<lambda>p. total_distance (startAndEnd s e p) d)"
  have "?T \<noteq> None"
    by (simp add: toMin_eq_None permutations_nonempty)
  then obtain p where p: "?T = Some p" by (cases ?T) simp_all
  then have "p \<in> set (permutations xs (length xs))" by (rule toMin_in_set)
  then show ?thesis
    using p by (intro bexI [of _ p]) (simp_all add: travelingSalesman_toMin)
qed

subsection \<open>The fused optimizer against the pipeline\<close>

lemma js_index_first: "p \<noteq> [] \<Longrightarrow> js_index u p 0 = hd p"
  by (cases p) (simp_all add: js_index_def)

lemma js_index_last: "p \<noteq> [] \<Longrightarrow> js_index u p (int (length p) - 1) = last p"
proof -
  assume p: "p \<noteq> []"
  then have "nat (int (length p) - 1) = length p - 1" by simp
  moreover have "0 \<le> int (length p) - 1" using p by (cases p) simp_all
  ultimately show ?thesis using p by (simp add: js_index_def last_conv_nth)
qed

text \<open>
  On a non-empty permutation the fused score is the score of the assembled route, as soon
  as addition is associative and commutative.
\<close>

lemma handRolled_distance_eq:
  fixes d :: "'a \<times> 'a \<Rightarrow> 'd::comm_monoid_add"
  assumes "p \<noteq> []"
  shows "handRolled_distance u s e d p = total_distance (startAndEnd s e p) d"
  using assms
  by (simp add: handRolled_distance_def Let_def total_distance_sum_list pairwise_startAndEnd
      js_index_first js_index_last add_ac)

lemma handRolled_fold:
  fixes d :: "'a \<times> 'a \<Rightarrow> 'd::{linorder,order_top,plus,zero}"
  shows "foldl (handRolled_step u s e d) (top, []) ps =
     (case toMin ps (handRolled_distance u s e d) of
        None \<Rightarrow> (top, [])
      | Some p \<Rightarrow> if handRolled_distance u s e d p < top
                  then (handRolled_distance u s e d p, p) else (top, []))"
proof (induction ps rule: rev_induct)
  case Nil
  then show ?case by (simp add: toMin_Nil)
next
  case (snoc q qs)
  let ?h = "handRolled_distance u s e d"
  show ?case
  proof (cases "toMin qs ?h")
    case None
    then show ?thesis using snoc
      by (simp add: toMin_snoc toMin_step_def handRolled_step_def)
  next
    case (Some m)
    show ?thesis
    proof (cases "?h m < top")
      case True
      then show ?thesis using snoc Some
        by (auto simp add: toMin_snoc toMin_step_def handRolled_step_def)
    next
      case False
      then have "?h m = top" by (simp add: not_less top_unique)
      then show ?thesis using snoc Some
        by (simp add: toMin_snoc toMin_step_def handRolled_step_def)
    qed
  qed
qed

lemma handRolledTravelingSalesman_toMin:
  fixes d :: "'a \<times> 'a \<Rightarrow> 'd::{linorder,order_top,plus,zero}"
  shows "handRolledTravelingSalesman u xs s e d =
     (case toMin (permutations xs (length xs)) (handRolled_distance u s e d) of
        None \<Rightarrow> [s, e]
      | Some p \<Rightarrow> if handRolled_distance u s e d p < top then startAndEnd s e p else [s, e])"
  by (simp add: handRolledTravelingSalesman_def Let_def handRolled_fold startAndEnd_def
      split: option.splits)

lemma permutations_Nil: "permutations [] 0 = [[]]"
  by (simp add: permutations_def)

lemma permutations_not_Nil: "xs \<noteq> [] \<Longrightarrow> p \<in> set (permutations xs (length xs)) \<Longrightarrow> p \<noteq> []"
  using permutations_mset [of p xs] by auto

text \<open>
  The fused optimizer in terms of the pipeline optimizer: the two agree, except that the
  fused one returns \<open>[start, end]\<close> when no permutation scores below \<open>top\<close>.
\<close>

lemma handRolled_eq_travelingSalesman:
  fixes d :: "'a \<times> 'a \<Rightarrow> 'd::{linorder,order_top,comm_monoid_add}"
  shows "handRolledTravelingSalesman u xs s e d =
     (if xs \<noteq> [] \<and> (\<forall>p \<in> set (permutations xs (length xs)).
                         total_distance (startAndEnd s e p) d = top)
      then [s, e] else travelingSalesman xs s e d)"
proof (cases "xs = []")
  case True
  then show ?thesis
    by (simp add: handRolledTravelingSalesman_toMin travelingSalesman_toMin permutations_Nil
        toMin_def toMin_step_def startAndEnd_def)
next
  case False
  let ?P = "permutations xs (length xs)"
  let ?score = "\<lambda>p. total_distance (startAndEnd s e p) d"
  have eq: "toMin ?P (handRolled_distance u s e d) = toMin ?P ?score"
    by (rule toMin_cong) (simp add: handRolled_distance_eq permutations_not_Nil [OF False])
  obtain i where i: "i < length ?P" and m: "toMin ?P ?score = Some (?P ! i)"
    and le: "\<forall>j<length ?P. ?score (?P ! i) \<le> ?score (?P ! j)"
    using toMin_first_min [OF permutations_nonempty, of xs ?score] by blast
  have mem: "?P ! i \<in> set ?P" using i by simp
  then have hs: "handRolled_distance u s e d (?P ! i) = ?score (?P ! i)"
    by (simp add: handRolled_distance_eq permutations_not_Nil [OF False])
  have all_top: "(\<forall>p \<in> set ?P. ?score p = top) \<longleftrightarrow> \<not> ?score (?P ! i) < top"
  proof
    assume "\<forall>p \<in> set ?P. ?score p = top"
    then show "\<not> ?score (?P ! i) < top" using mem by simp
  next
    assume "\<not> ?score (?P ! i) < top"
    then have t: "?score (?P ! i) = top" by (simp add: not_less top_unique)
    show "\<forall>p \<in> set ?P. ?score p = top"
    proof
      fix p assume "p \<in> set ?P"
      then obtain j where "j < length ?P" "p = ?P ! j" by (auto simp: in_set_conv_nth)
      then have "top \<le> ?score p" using le t by auto
      then show "?score p = top" by (simp add: top_unique)
    qed
  qed
  show ?thesis
    using False
    by (simp add: handRolledTravelingSalesman_toMin travelingSalesman_toMin eq m hs all_top)
qed

subsection \<open>The shape of the returned route\<close>

lemma startAndEnd_shape:
  "length (startAndEnd s e p) = length p + 2 \<and> hd (startAndEnd s e p) = s
   \<and> last (startAndEnd s e p) = e \<and> take (length p) (drop 1 (startAndEnd s e p)) = p"
  by (simp add: startAndEnd_def)

text \<open>
  The pipeline optimizer returns a route of the documented shape for every input, and
  so does the earlier revision.
\<close>

lemma travelingSalesman_route:
  "length (travelingSalesman xs s e d) = length xs + 2
   \<and> hd (travelingSalesman xs s e d) = s
   \<and> last (travelingSalesman xs s e d) = e
   \<and> mset (take (length xs) (drop 1 (travelingSalesman xs s e d))) = mset xs"
proof -
  obtain p where p: "p \<in> set (permutations xs (length xs))"
    and r: "travelingSalesman xs s e d = startAndEnd s e p"
    using travelingSalesman_in_permutations [of xs s e d] by blast
  have m: "mset p = mset xs" using p by (rule permutations_mset)
  then have l: "length p = length xs" by (metis size_mset)
  show ?thesis
    using startAndEnd_shape [of s e p] m unfolding r l by simp
qed

text \<open>
  The fused optimizer does so when the input is empty or at least one candidate route
  has a total distance other than \<open>top\<close>.
\<close>

lemma handRolledTravelingSalesman_route:
  fixes d :: "'a \<times> 'a \<Rightarrow> 'd::{linorder,order_top,comm_monoid_add}"
  assumes "xs = [] \<or> (\<exists>p \<in> set (permutations xs (length xs)).
                         total_distance (startAndEnd s e p) d \<noteq> top)"
  shows "length (handRolledTravelingSalesman u xs s e d) = length xs + 2
   \<and> hd (handRolledTravelingSalesman u xs s e d) = s
   \<and> last (handRolledTravelingSalesman u xs s e d) = e
   \<and> mset (take (length xs) (drop 1 (handRolledTravelingSalesman u xs s e d))) = mset xs"
proof -
  have "handRolledTravelingSalesman u xs s e d = travelingSalesman xs s e d"
    using assms by (auto simp add: handRolled_eq_travelingSalesman)
  then show ?thesis by (simp only: travelingSalesman_route)
qed

text \<open>
  The selected route is the first one, in the order of generation, whose total distance is
  minimal.
\<close>

lemma travelingSalesman_first_minimal:
  fixes d :: "'a \<times> 'a \<Rightarrow> 'd::{linorder,plus,zero}"
  shows "\<exists>i<length (permutations xs (length xs)).
      travelingSalesman xs s e d = startAndEnd s e (permutations xs (length xs) ! i)
    \<and> (\<forall>j<length (permutations xs (length xs)).
          total_distance (startAndEnd s e (permutations xs (length xs) ! i)) d
            \<le> total_distance (startAndEnd s e (permutations xs (length xs) ! j)) d)
    \<and> (\<forall>j<i. total_distance (startAndEnd s e (permutations xs (length xs) ! i)) d
            < total_distance (startAndEnd s e (permutations xs (length xs) ! j)) d)"
proof -
  let ?P = "permutations xs (length xs)"
  let ?score = "\<lambda>p. total_distance (startAndEnd s e p) d"
  obtain i where i: "i < length ?P" and m: "toMin ?P ?score = Some (?P ! i)"
    and le: "\<forall>j<length ?P. ?score (?P ! i) \<le> ?score (?P ! j)"
    and less: "\<forall>j<i. ?score (?P ! i) < ?score (?P ! j)"
    using toMin_first_min [OF permutations_nonempty, of xs ?score] by blast
  have "travelingSalesman xs s e d = startAndEnd s e (?P ! i)"
    by (simp add: travelingSalesman_toMin m)
  then show ?thesis using i le less by blast
qed

lemma handRolled_step_strict:
  "handRolled_step u s e d (minDistance, minRoute) route =
     (if handRolled_distance u s e d route < minDistance
      then (handRolled_distance u s e d route, route) else (minDistance, minRoute))"
  by (simp add: handRolled_step_def)

subsection \<open>Claims about the generator and the returned route\<close>

text \<open>
  Claim C6.  For an input of length \<open>n\<close> the generator produces exactly \<open>n!\<close> orderings.
  It works by position: its output is the image, under reading the input at an index, of
  its output on the index list \<open>[0..<n]\<close>, and on that list it produces every arrangement
  of the indices exactly once.  Hence every ordering is a rearrangement of the input, none
  is omitted, and equal values at different positions give value-identical orderings that
  are all emitted.  For \<open>n = 0\<close> the output is the empty sequence, once.
\<close>

theorem getPermutations_all_orderings:
  "length (getPermutations xs (length xs)) = fact (length xs)
   \<and> getPermutations xs (length xs)
       = map (map (\<lambda>i. xs ! i)) (getPermutations [0..<length xs] (length xs))
   \<and> distinct (getPermutations [0..<length xs] (length xs))
   \<and> set (getPermutations [0..<length xs] (length xs)) = {p. mset p = mset [0..<length xs]}
   \<and> set (getPermutations xs (length xs)) = {p. mset p = mset xs}
   \<and> getPermutations ([] :: 'a list) 0 = [[]]"
proof -
  have "getPermutations (map (\<lambda>i. xs ! i) [0..<length xs]) (length xs)
      = map (map (\<lambda>i. xs ! i)) (getPermutations [0..<length xs] (length xs))"
    by (rule getPermutations_map)
  then have pos: "getPermutations xs (length xs)
      = map (map (\<lambda>i. xs ! i)) (getPermutations [0..<length xs] (length xs))"
    by (simp only: map_nth)
  have dist: "distinct (getPermutations [0..<length xs] (length xs))"
    by (rule getPermutations_distinct_aux) simp_all
  have idx: "set (getPermutations [0..<length xs] (length xs)) = {p. mset p = mset [0..<length xs]}"
    using getPermutations_set [of "[0..<length xs]"] by simp
  have len: "length (getPermutations xs (length xs)) = fact (length xs)"
    by (rule getPermutations_length_aux) simp
  have emp: "getPermutations ([] :: 'a list) 0 = [[]]"
    by simp
  show ?thesis
    using len pos dist idx getPermutations_set [of xs] emp by blast
qed

theorem getPermutations_all_orderings_witness:
  "length (getPermutations [1, 1 :: int] (length [1, 1 :: int])) = fact (length [1, 1 :: int])
   \<and> getPermutations [1, 1 :: int] 2 = [[1, 1], [1, 1]]
   \<and> getPermutations [0 ..< 2] 2 = [[0, 1], [1, 0]]"
proof -
  have "getPermutations [1, 1 :: int] 2 = [[1, 1], [1, 1]]" by code_simp
  moreover have "getPermutations [0 ..< 2] 2 = [[0, 1], [1, 0]]" by code_simp
  moreover have "length (getPermutations [1, 1 :: int] (length [1, 1 :: int]))
      = fact (length [1, 1 :: int])"
    using getPermutations_all_orderings [of "[1, 1 :: int]"] by (rule conjunct1)
  ultimately show ?thesis by blast
qed

text \<open>
  Claim C8.  With the distance \<open>|a - b|\<close>, inner destinations \<open>[1,2,3,4,5]\<close>, start \<open>0\<close>
  and end \<open>6\<close>, both optimizers return \<open>[0,1,2,3,4,5,6]\<close>.
\<close>

theorem sorted_example_route:
  "travelingSalesman [1, 2, 3, 4, 5 :: int] 0 6 (\<lambda>(a, b). enat (nat \<bar>a - b\<bar>))
     = [0, 1, 2, 3, 4, 5, 6]
   \<and> handRolledTravelingSalesman u [1, 2, 3, 4, 5 :: int] 0 6 (\<lambda>(a, b). enat (nat \<bar>a - b\<bar>))
     = [0, 1, 2, 3, 4, 5, 6]"
proof -
  have "travelingSalesman [1, 2, 3, 4, 5 :: int] 0 6 (\<lambda>(a, b). enat (nat \<bar>a - b\<bar>))
     = [0, 1, 2, 3, 4, 5, 6]"
    by code_simp
  moreover have "handRolledTravelingSalesman u [1, 2, 3, 4, 5 :: int] 0 6
       (\<lambda>(a, b). enat (nat \<bar>a - b\<bar>)) = [0, 1, 2, 3, 4, 5, 6]"
    by code_simp
  ultimately show ?thesis by simp
qed

text \<open>
  Claim C1.  The returned route has length \<open>n + 2\<close>, starts with \<open>start\<close>, ends with
  \<open>end\<close>, and its middle is a rearrangement of the inner destinations.  This holds for
  the pipeline optimizer (\<open>travelingSalesman_route\<close>) and for the fused optimizer when
  some candidate has a total distance other than \<^verbatim>\<open>Infinity\<close>
  (\<open>handRolledTravelingSalesman_route\<close>).  When every candidate has total distance
  \<^verbatim>\<open>Infinity\<close> the comparison \<^verbatim>\<open>distance < minDistance\<close> never succeeds against the
  initial \<^verbatim>\<open>Infinity\<close>, \<^verbatim>\<open>minRoute\<close> stays \<^verbatim>\<open>[]\<close>, and the fused optimizer returns
  \<open>[start, end]\<close>: for one inner destination and a distance function that is constantly
  \<^verbatim>\<open>Infinity\<close> it returns a route of length 2 without the destination, where the pipeline
  optimizer returns the full route.
\<close>

theorem handRolled_infinite_distance_route:
  "handRolledTravelingSalesman (- 1) [1 :: int] 0 2 (\<lambda>(a, b). (\<infinity> :: enat)) = [0, 2]
   \<and> travelingSalesman [1 :: int] 0 2 (\<lambda>(a, b). (\<infinity> :: enat)) = [0, 1, 2]"
  by code_simp

text \<open>
  Claim C2.  The routes returned by the two optimizers have the same total distance.  By
  \<open>handRolled_eq_travelingSalesman\<close> the two routes are equal unless every candidate has
  total distance \<^verbatim>\<open>Infinity\<close>; in that case the fused optimizer returns
  \<open>[start, end]\<close>, whose total distance is that of the direct leg.  With one inner
  destination, a direct leg of distance 1 and every other distance \<^verbatim>\<open>Infinity\<close>, the
  totals are \<^verbatim>\<open>Infinity\<close> and 1.
\<close>

theorem total_distance_of_results_differs:
  "total_distance
      (travelingSalesman [1 :: int] 0 2 (\<lambda>(a, b). if a = 0 \<and> b = 2 then 1 else (\<infinity> :: enat)))
      (\<lambda>(a, b). if a = 0 \<and> b = 2 then 1 else (\<infinity> :: enat)) = \<infinity>
   \<and> total_distance
      (handRolledTravelingSalesman (- 1) [1 :: int] 0 2
         (\<lambda>(a, b). if a = 0 \<and> b = 2 then 1 else (\<infinity> :: enat)))
      (\<lambda>(a, b). if a = 0 \<and> b = 2 then 1 else (\<infinity> :: enat)) = 1"
  by code_simp

text \<open>
  Claim C3.  Both optimizers scan the candidates in the order of generation and replace
  the current best only on a strictly smaller score (\<open>toMin_step\<close>,
  \<open>handRolled_step_strict\<close>), so that among several routes of minimal total distance the
  first one generated is returned.  The pipeline optimizer does return it
  (\<open>travelingSalesman_first_minimal\<close>).  In the fused optimizer the scan starts from
  \<^verbatim>\<open>(Infinity, [])\<close>, and a first candidate of score \<^verbatim>\<open>Infinity\<close> is not strictly
  smaller: with two inner destinations and a distance function that is constantly
  \<^verbatim>\<open>Infinity\<close> both candidate routes share the minimal total distance, the pipeline
  optimizer returns the first of them and the fused optimizer returns neither.
\<close>

theorem handRolled_tie_at_infinity:
  "total_distance [0, 1, 2, 3 :: int] (\<lambda>(a, b). (\<infinity> :: enat)) = \<infinity>
   \<and> total_distance [0, 2, 1, 3 :: int] (\<lambda>(a, b). (\<infinity> :: enat)) = \<infinity>
   \<and> permutations [1, 2 :: int] 2 = [[1, 2], [2, 1]]
   \<and> travelingSalesman [1, 2 :: int] 0 3 (\<lambda>(a, b). (\<infinity> :: enat)) = [0, 1, 2, 3]
   \<and> handRolledTravelingSalesman (- 1) [1, 2 :: int] 0 3 (\<lambda>(a, b). (\<infinity> :: enat)) = [0, 3]"
  by code_simp

subsection \<open>The order of additions\<close>

lemma foldl_log:
  "foldl (\<lambda>(distance, evaluated) (a, b). (distance + d (a, b), evaluated @ [(a, b)]))
         (acc, seen) qs
   = (foldl (\<lambda>distance (a, b). distance + d (a, b)) acc qs, seen @ qs)"
  by (induction qs arbitrary: acc seen) (simp_all add: case_prod_beta)

lemma total_distance_log_eq:
  "total_distance_log route d = (total_distance route d, pairwise_list route)"
  using foldl_log [of d 0 "[]" "pairwise_list route"]
  by (simp add: total_distance_log_def total_distance_def)

lemma handRolled_distance_log_eq:
  "handRolled_distance_log u s e d route =
     (handRolled_distance u s e d route,
      pairwise_list route @ [(s, js_index u route 0), (js_index u route (int (length route) - 1), e)])"
  by (simp add: handRolled_distance_log_def handRolled_distance_def total_distance_log_eq Let_def)

text \<open>
  Claim C4, as stated: both optimizers add the distances of a candidate in the order
  \<open>(start, p0), (p0, p1), \<dots>, (pk, end)\<close>.  For the permutation \<open>[1, 2]\<close> between
  \<open>0\<close> and \<open>3\<close> the pipeline optimizer does, and the fused optimizer adds the inner
  distance first.
\<close>

theorem fused_order_counterexample:
  "snd (total_distance_log (startAndEnd 0 3 [1, 2 :: int]) (\<lambda>(a, b). enat (nat \<bar>a - b\<bar>)))
     = [(0, 1), (1, 2), (2, 3)]
   \<and> snd (handRolled_distance_log (- 1) 0 3 (\<lambda>(a, b). enat (nat \<bar>a - b\<bar>)) [1, 2 :: int])
     = [(1, 2), (0, 1), (2, 3)]
   \<and> snd (handRolled_distance_log (- 1) 0 3 (\<lambda>(a, b). enat (nat \<bar>a - b\<bar>)) [1, 2 :: int])
     \<noteq> [(0, 1), (1, 2), (2, 3)]"
  by (simp add: total_distance_log_eq handRolled_distance_log_eq startAndEnd_def js_index_def)

text \<open>
  Claim C4, amended.  For a non-empty candidate \<open>p\<close> the pipeline optimizer adds, left to
  right along the assembled route, the distances of \<open>(start, p0)\<close>, of the consecutive
  pairs of \<open>p\<close>, and of \<open>(pk, end)\<close>; the fused optimizer adds the distances of the
  consecutive pairs of \<open>p\<close> first, then that of \<open>(start, p0)\<close>, then that of
  \<open>(pk, end)\<close>.  These are the same addends in a different order, and the instrumented
  scorers compute the scores of the optimizers.
\<close>

theorem evaluation_order:
  assumes "p \<noteq> []"
  shows "snd (total_distance_log (startAndEnd s e p) d) = (s, hd p) # pairwise_list p @ [(last p, e)]
   \<and> snd (handRolled_distance_log u s e d p) = pairwise_list p @ [(s, hd p), (last p, e)]
   \<and> mset (snd (handRolled_distance_log u s e d p))
       = mset (snd (total_distance_log (startAndEnd s e p) d))
   \<and> fst (total_distance_log (startAndEnd s e p) d) = total_distance (startAndEnd s e p) d
   \<and> fst (handRolled_distance_log u s e d p) = handRolled_distance u s e d p"
  using assms
  by (simp add: total_distance_log_eq handRolled_distance_log_eq pairwise_startAndEnd
      js_index_first js_index_last)

theorem evaluation_order_witness:
  "[1, 2, 3 :: int] \<noteq> []
   \<and> snd (total_distance_log (startAndEnd 0 4 [1, 2, 3 :: int]) (\<lambda>(a, b). enat (nat \<bar>a - b\<bar>)))
       = [(0, 1), (1, 2), (2, 3), (3, 4)]
   \<and> snd (handRolled_distance_log (- 1) 0 4 (\<lambda>(a, b). enat (nat \<bar>a - b\<bar>)) [1, 2, 3 :: int])
       = [(1, 2), (2, 3), (0, 1), (3, 4)]"
proof -
  have ne: "[1, 2, 3 :: int] \<noteq> []" by simp
  show ?thesis
    using evaluation_order [OF ne, of 0 4 "\<lambda>(a, b). enat (nat \<bar>a - b\<bar>)" "- 1"] by simp
qed

subsection \<open>The memoizing wrapper\<close>

lemma first_calls_subset: "set (first_calls key seen xs) \<subseteq> set xs"
  by (induction xs arbitrary: seen) auto

lemma first_calls_keys: "key ` set (first_calls key seen xs) = key ` set xs - seen"
  by (induction xs arbitrary: seen) auto

lemma first_calls_distinct: "distinct (map key (first_calls key seen xs))"
proof (induction xs arbitrary: seen)
  case Nil
  then show ?case by simp
next
  case (Cons x xs)
  have "key x \<notin> key ` set (first_calls key (insert (key x) seen) xs)"
    by (simp add: first_calls_keys)
  then show ?case using Cons by simp
qed

lemma first_calls_find:
  "x \<in> set (first_calls key seen xs) \<Longrightarrow> find (\<lambda>y. key y = key x) xs = Some x"
proof (induction xs arbitrary: seen)
  case Nil
  then show ?case by simp
next
  case (Cons z zs)
  show ?case
  proof (cases "key z \<in> seen")
    case True
    then have x: "x \<in> set (first_calls key seen zs)" using Cons.prems by simp
    then have "key x \<in> key ` set zs - seen" using first_calls_keys [of key seen zs] by blast
    then have "key z \<noteq> key x" using True by auto
    then show ?thesis using Cons.IH [OF x] by simp
  next
    case False
    show ?thesis
    proof (cases "x = z")
      case True
      then show ?thesis by simp
    next
      case ne: False
      then have x: "x \<in> set (first_calls key (insert (key z) seen) zs)"
        using Cons.prems False by simp
      then have "key x \<in> key ` set zs - insert (key z) seen"
        using first_calls_keys [of key "insert (key z) seen" zs] by blast
      then have "key z \<noteq> key x" by auto
      then show ?thesis using Cons.IH [OF x] by simp
    qed
  qed
qed

lemma first_calls_length:
  "length (first_calls key seen xs) = card (key ` set xs - seen)"
proof -
  have "length (first_calls key seen xs) = length (map key (first_calls key seen xs))"
    by simp
  also have "\<dots> = card (set (map key (first_calls key seen xs)))"
    using first_calls_distinct [of key seen xs] by (simp only: distinct_card)
  also have "\<dots> = card (key ` set xs - seen)"
    by (simp add: first_calls_keys)
  finally show ?thesis .
qed

lemma filled_Nil: "filled key g cache [] = cache"
  by (rule ext) (simp add: filled_def split: option.splits)

lemma filled_hit:
  assumes "cache (key x) = Some v"
  shows "filled key g cache (x # xs) = filled key g cache xs"
proof (rule ext)
  fix k
  show "filled key g cache (x # xs) k = filled key g cache xs k"
  proof (cases "cache k")
    case None
    then have "key x \<noteq> k" using assms by auto
    then show ?thesis using None by (simp add: filled_def)
  next
    case (Some w)
    then show ?thesis by (simp add: filled_def)
  qed
qed

lemma filled_miss:
  assumes "cache (key x) = None"
  shows "filled key g (cache(key x \<mapsto> g x)) xs = filled key g cache (x # xs)"
proof (rule ext)
  fix k
  show "filled key g (cache(key x \<mapsto> g x)) xs k = filled key g cache (x # xs) k"
    using assms by (cases "k = key x") (auto simp: filled_def split: option.splits)
qed

text \<open>
  Whatever the wrapped function does to its state, a run of the wrapper invokes it on the
  first input of every key that is not in the map, in order, and on nothing else.
\<close>

lemma cachedFn_calls_world:
  "snd (snd (cachedFn_calls key f xs (cache, world)))
     = foldl (\<lambda>w x. snd (f x w)) world (first_calls key (dom cache) xs)"
proof (induction xs arbitrary: cache world)
  case Nil
  then show ?case by simp
next
  case (Cons x xs)
  show ?case
  proof (cases "cache (key x)")
    case None
    obtain result w' where f: "f x world = (result, w')" by fastforce
    have call: "cachedFn_call key f x (cache, world) = (result, (cache(key x \<mapsto> result), w'))"
      using None f by (simp add: cachedFn_call_def)
    have nd: "key x \<notin> dom cache" using None by (simp add: domIff)
    have "snd (snd (cachedFn_calls key f xs (cache(key x \<mapsto> result), w')))
        = foldl (\<lambda>w x. snd (f x w)) w' (first_calls key (dom (cache(key x \<mapsto> result))) xs)"
      by (rule Cons.IH)
    then show ?thesis using nd f by (simp add: call case_prod_beta)
  next
    case (Some v)
    have call: "cachedFn_call key f x (cache, world) = (v, (cache, world))"
      using Some by (simp add: cachedFn_call_def)
    have d: "key x \<in> dom cache" using Some by (simp add: domIff)
    have "snd (snd (cachedFn_calls key f xs (cache, world)))
        = foldl (\<lambda>w x. snd (f x w)) world (first_calls key (dom cache) xs)"
      by (rule Cons.IH)
    then show ?thesis using d by (simp add: call case_prod_beta)
  qed
qed

text \<open>A run of the wrapper around a recording function, from any map and any record.\<close>

lemma cachedFn_calls_spied:
  "cachedFn_calls key (spied g) xs (cache, l0) =
     (map (\<lambda>x. the (filled key g cache xs (key x))) xs,
      (filled key g cache xs, l0 @ first_calls key (dom cache) xs))"
proof (induction xs arbitrary: cache l0)
  case Nil
  then show ?case by (simp add: filled_Nil)
next
  case (Cons x xs)
  show ?case
  proof (cases "cache (key x)")
    case None
    have call: "cachedFn_call key (spied g) x (cache, l0)
        = (g x, (cache(key x \<mapsto> g x), l0 @ [x]))"
      using None by (simp add: cachedFn_call_def spied_def)
    have hd: "the (filled key g cache (x # xs) (key x)) = g x"
      using None by (simp add: filled_def)
    have nd: "key x \<notin> dom cache" using None by (simp add: domIff)
    have fm: "filled key g (cache(key x \<mapsto> g x)) xs = filled key g cache (x # xs)"
      using None by (rule filled_miss [where cache = cache and key = key and x = x])
    have "cachedFn_calls key (spied g) xs (cache(key x \<mapsto> g x), l0 @ [x]) =
        (map (\<lambda>y. the (filled key g (cache(key x \<mapsto> g x)) xs (key y))) xs,
         (filled key g (cache(key x \<mapsto> g x)) xs,
          (l0 @ [x]) @ first_calls key (dom (cache(key x \<mapsto> g x))) xs))"
      by (rule Cons.IH)
    then have ih: "cachedFn_calls key (spied g) xs (cache(key x \<mapsto> g x), l0 @ [x]) =
        (map (\<lambda>y. the (filled key g cache (x # xs) (key y))) xs,
         (filled key g cache (x # xs),
          l0 @ x # first_calls key (insert (key x) (dom cache)) xs))"
      unfolding fm by simp
    have fc: "first_calls key (dom cache) (x # xs)
        = x # first_calls key (insert (key x) (dom cache)) xs"
      using nd by simp
    show ?thesis
      unfolding fc by (simp add: call ih hd del: first_calls.simps)
  next
    case (Some v)
    have call: "cachedFn_call key (spied g) x (cache, l0) = (v, (cache, l0))"
      using Some by (simp add: cachedFn_call_def)
    have hd: "the (filled key g cache xs (key x)) = v"
      using Some by (simp add: filled_def)
    have d: "key x \<in> dom cache" using Some by (simp add: domIff)
    have fh: "filled key g cache (x # xs) = filled key g cache xs"
      using Some by (rule filled_hit [where cache = cache and key = key and x = x])
    have ih: "cachedFn_calls key (spied g) xs (cache, l0) =
        (map (\<lambda>y. the (filled key g cache xs (key y))) xs,
         (filled key g cache xs, l0 @ first_calls key (dom cache) xs))"
      by (rule Cons.IH)
    have fc: "first_calls key (dom cache) (x # xs) = first_calls key (dom cache) xs"
      using d by simp
    show ?thesis
      unfolding fc fh by (simp add: call ih hd del: first_calls.simps)
  qed
qed

lemma find_key_in_set:
  assumes "x \<in> set xs"
  shows "\<exists>y \<in> set xs. find (\<lambda>y. key y = key x) xs = Some y \<and> key y = key x"
proof (cases "find (\<lambda>y. key y = key x) xs")
  case None
  then show ?thesis using assms by (auto simp: find_None_iff)
next
  case (Some y)
  then show ?thesis by (auto simp: find_Some_iff)
qed

lemma cachedFn_outputs_eq:
  "cachedFn_outputs key g inputs
     = map (\<lambda>x. g (the (find (\<lambda>y. key y = key x) inputs))) inputs"
proof -
  have "the (filled key g Map.empty inputs (key x)) = g (the (find (\<lambda>y. key y = key x) inputs))"
    if "x \<in> set inputs" for x
    using find_key_in_set [OF that, of key] by (auto simp: filled_def)
  then have "map (\<lambda>x. the (filled key g Map.empty inputs (key x))) inputs
      = map (\<lambda>x. g (the (find (\<lambda>y. key y = key x) inputs))) inputs"
    by (intro map_cong) simp_all
  then show ?thesis
    by (simp add: cachedFn_outputs_def cachedFn_def cachedFn_calls_spied)
qed

lemma cachedFn_invocations_eq:
  "cachedFn_invocations key g inputs = first_calls key {} inputs"
  by (simp add: cachedFn_invocations_def cachedFn_def cachedFn_calls_spied)

text \<open>
  Claim C5, as stated: every call of the wrapper returns what \<open>f\<close> returns for the input
  of that call.  For \<^verbatim>\<open>f = (x) => Object.is(x, -0)\<close>, a call with \<^verbatim>\<open>+0\<close> followed by a
  call with \<^verbatim>\<open>-0\<close> finds the key of \<^verbatim>\<open>-0\<close> in the map and returns \<^verbatim>\<open>false\<close>, the
  output for \<^verbatim>\<open>+0\<close>, while \<open>f\<close> returns \<^verbatim>\<open>true\<close> for \<^verbatim>\<open>-0\<close>.
\<close>

theorem cachedFn_signed_zero_counterexample:
  "cachedFn_outputs sameValueZero (\<lambda>x. x = NegZero) [Num 0, NegZero] = [False, False]
   \<and> map (\<lambda>x. x = NegZero) [Num 0, NegZero] = [False, True]
   \<and> cachedFn_outputs sameValueZero (\<lambda>x. x = NegZero) [Num 0, NegZero]
       \<noteq> map (\<lambda>x. x = NegZero) [Num 0, NegZero]"
proof -
  have "cachedFn_outputs sameValueZero (\<lambda>x. x = NegZero) [Num 0, NegZero] = [False, False]"
    by code_simp
  moreover have "map (\<lambda>x. x = NegZero) [Num 0, NegZero] = [False, True]"
    by simp
  ultimately show ?thesis by simp
qed

text \<open>
  Claim C5, amended.  Over any sequence of calls to one wrapper, the wrapped function is
  invoked exactly once per distinct key among the inputs seen, on the first input with
  that key: the inputs it is invoked on have pairwise distinct keys, cover the keys of
  all inputs, and their number is the number of distinct keys.  Every call returns the
  output of the function for the first input seen with the same key; that is its output
  for the input of the call whenever the function agrees on inputs that share a key.
  Calls that all have one key cause one invocation, and calls with pairwise distinct keys
  cause one invocation each.
\<close>

theorem cachedFn_once_per_key:
  "cachedFn_outputs key g inputs
     = map (\<lambda>x. g (the (find (\<lambda>y. key y = key x) inputs))) inputs
   \<and> distinct (map key (cachedFn_invocations key g inputs))
   \<and> key ` set (cachedFn_invocations key g inputs) = key ` set inputs
   \<and> (\<forall>x \<in> set (cachedFn_invocations key g inputs).
         find (\<lambda>y. key y = key x) inputs = Some x)
   \<and> length (cachedFn_invocations key g inputs) = card (key ` set inputs)
   \<and> ((\<forall>x \<in> set inputs. \<forall>y \<in> set inputs. key x = key y \<longrightarrow> g x = g y)
        \<longrightarrow> cachedFn_outputs key g inputs = map g inputs)
   \<and> (inputs \<noteq> [] \<and> (\<forall>x \<in> set inputs. key x = key (hd inputs))
        \<longrightarrow> length (cachedFn_invocations key g inputs) = 1)
   \<and> (distinct (map key inputs)
        \<longrightarrow> length (cachedFn_invocations key g inputs) = length inputs)"
proof -
  let ?inv = "cachedFn_invocations key g inputs"
  have len: "length ?inv = card (key ` set inputs)"
    by (simp add: cachedFn_invocations_eq first_calls_length)
  have dist: "distinct (map key ?inv)"
    by (simp add: cachedFn_invocations_eq first_calls_distinct)
  have keys: "key ` set ?inv = key ` set inputs"
    by (simp add: cachedFn_invocations_eq first_calls_keys)
  have first: "\<forall>x \<in> set ?inv. find (\<lambda>y. key y = key x) inputs = Some x"
    by (simp add: cachedFn_invocations_eq first_calls_find)
  have agree: "cachedFn_outputs key g inputs = map g inputs"
    if a: "\<forall>x \<in> set inputs. \<forall>y \<in> set inputs. key x = key y \<longrightarrow> g x = g y"
  proof -
    have "g (the (find (\<lambda>y. key y = key x) inputs)) = g x" if x: "x \<in> set inputs" for x
    proof -
      obtain y where y: "y \<in> set inputs" "find (\<lambda>y. key y = key x) inputs = Some y"
        "key y = key x"
        using find_key_in_set [OF x, of key] by blast
      have "g y = g x" using a y(1) x y(3) by blast
      then show ?thesis using y(2) by simp
    qed
    then have "map (\<lambda>x. g (the (find (\<lambda>y. key y = key x) inputs))) inputs = map g inputs"
      by (intro map_cong) simp_all
    then show ?thesis by (simp only: cachedFn_outputs_eq)
  qed
  have one: "length ?inv = 1"
    if "inputs \<noteq> [] \<and> (\<forall>x \<in> set inputs. key x = key (hd inputs))"
  proof -
    have "inputs \<noteq> []" using that by simp
    then obtain z zs where i: "inputs = z # zs" by (cases inputs) simp_all
    have "\<forall>x \<in> set inputs. key x = key z" using that i by simp
    then have "key ` set inputs = {key z}" using i by auto
    then show ?thesis by (simp add: len)
  qed
  have all: "length ?inv = length inputs" if "distinct (map key inputs)"
  proof -
    have "card (set (map key inputs)) = length (map key inputs)"
      using that by (rule distinct_card)
    then show ?thesis by (simp add: len)
  qed
  show ?thesis
  proof (intro conjI impI)
    show "cachedFn_outputs key g inputs
        = map (\<lambda>x. g (the (find (\<lambda>y. key y = key x) inputs))) inputs"
      by (rule cachedFn_outputs_eq)
    show "distinct (map key ?inv)" by (rule dist)
    show "key ` set ?inv = key ` set inputs" by (rule keys)
    show "\<forall>x \<in> set ?inv. find (\<lambda>y. key y = key x) inputs = Some x" by (rule first)
    show "length ?inv = card (key ` set inputs)" by (rule len)
    show "cachedFn_outputs key g inputs = map g inputs"
      if "\<forall>x \<in> set inputs. \<forall>y \<in> set inputs. key x = key y \<longrightarrow> g x = g y"
      using that by (rule agree)
    show "length ?inv = 1"
      if "inputs \<noteq> [] \<and> (\<forall>x \<in> set inputs. key x = key (hd inputs))"
      using that by (rule one)
    show "length ?inv = length inputs" if "distinct (map key inputs)"
      using that by (rule all)
  qed
qed

theorem cachedFn_once_per_key_witness:
  "cachedFn_outputs id (\<lambda>x :: int. x * 2) [5, 5, 5, 10] = [10, 10, 10, 20]
   \<and> cachedFn_invocations id (\<lambda>x :: int. x * 2) [5, 5, 5, 10] = [5, 10]
   \<and> length (cachedFn_invocations id (\<lambda>x :: int. x * 2) [5, 5, 5]) = 1
   \<and> length (cachedFn_invocations (\<lambda>p. fst p) (\<lambda>p. \<bar>fst (snd p) - snd (snd p)\<bar>)
        [(1 :: nat, (0 :: int, 1 :: int)), (2, (0, 1))]) = 2
   \<and> length (cachedFn_invocations sameValueZero (\<lambda>x. x = NegZero) [Num 0, NegZero]) = 1"
proof -
  note t1 = cachedFn_once_per_key [of id "\<lambda>x :: int. x * 2" "[5, 5, 5, 10]"]
  note t2 = cachedFn_once_per_key [of id "\<lambda>x :: int. x * 2" "[5, 5, 5]"]
  note t3 = cachedFn_once_per_key [of "\<lambda>p. fst p" "\<lambda>p. \<bar>fst (snd p) - snd (snd p)\<bar>"
        "[(1 :: nat, (0 :: int, 1 :: int)), (2, (0, 1))]"]
  note t4 = cachedFn_once_per_key [of sameValueZero "\<lambda>x. x = NegZero" "[Num 0, NegZero]"]
  have h1: "\<forall>x \<in> set [5, 5, 5, 10 :: int]. \<forall>y \<in> set [5, 5, 5, 10 :: int].
      id x = id y \<longrightarrow> x * 2 = y * 2"
    by simp
  have "cachedFn_outputs id (\<lambda>x :: int. x * 2) [5, 5, 5, 10]
      = map (\<lambda>x :: int. x * 2) [5, 5, 5, 10]"
    using t1 [THEN conjunct2, THEN conjunct2, THEN conjunct2, THEN conjunct2, THEN conjunct2,
        THEN conjunct1] h1 by (rule mp)
  then have a: "cachedFn_outputs id (\<lambda>x :: int. x * 2) [5, 5, 5, 10] = [10, 10, 10, 20]"
    by simp
  have b: "cachedFn_invocations id (\<lambda>x :: int. x * 2) [5, 5, 5, 10] = [5, 10]"
    by code_simp
  have h2: "[5, 5, 5 :: int] \<noteq> [] \<and> (\<forall>x \<in> set [5, 5, 5 :: int]. id x = id (hd [5, 5, 5 :: int]))"
    by simp
  have c: "length (cachedFn_invocations id (\<lambda>x :: int. x * 2) [5, 5, 5]) = 1"
    using t2 [THEN conjunct2, THEN conjunct2, THEN conjunct2, THEN conjunct2, THEN conjunct2,
        THEN conjunct2, THEN conjunct1] h2 by (rule mp)
  have h3: "distinct (map (\<lambda>p. fst p) [(1 :: nat, (0 :: int, 1 :: int)), (2, (0, 1))])"
    by simp
  have "length (cachedFn_invocations (\<lambda>p. fst p) (\<lambda>p. \<bar>fst (snd p) - snd (snd p)\<bar>)
        [(1 :: nat, (0 :: int, 1 :: int)), (2, (0, 1))])
      = length [(1 :: nat, (0 :: int, 1 :: int)), (2, (0, 1))]"
    using t3 [THEN conjunct2, THEN conjunct2, THEN conjunct2, THEN conjunct2, THEN conjunct2,
        THEN conjunct2, THEN conjunct2] h3 by (rule mp)
  then have d: "length (cachedFn_invocations (\<lambda>p. fst p) (\<lambda>p. \<bar>fst (snd p) - snd (snd p)\<bar>)
        [(1 :: nat, (0 :: int, 1 :: int)), (2, (0, 1))]) = 2"
    by simp
  have h4: "[Num 0, NegZero] \<noteq> []
      \<and> (\<forall>x \<in> set [Num 0, NegZero]. sameValueZero x = sameValueZero (hd [Num 0, NegZero]))"
    by (simp add: sameValueZero_def)
  have e: "length (cachedFn_invocations sameValueZero (\<lambda>x. x = NegZero) [Num 0, NegZero]) = 1"
    using t4 [THEN conjunct2, THEN conjunct2, THEN conjunct2, THEN conjunct2, THEN conjunct2,
        THEN conjunct2, THEN conjunct1] h4 by (rule mp)
  show ?thesis
    using a b c d e by (intro conjI)
qed

subsection \<open>A failing distance function\<close>

lemma first_error_append:
  "first_error (rs @ rs') = (case first_error rs of Some err \<Rightarrow> Some err | None \<Rightarrow> first_error rs')"
  by (induction rs rule: first_error.induct) simp_all

lemma first_error_None: "first_error rs = None \<longleftrightarrow> (\<forall>r \<in> set rs. \<not> isl r)"
  by (induction rs rule: first_error.induct) simp_all

lemma first_error_Some: "first_error rs = Some err \<Longrightarrow> Inl err \<in> set rs"
  by (induction rs rule: first_error.induct) (simp_all split: if_splits)

text \<open>
  A fold whose step asks a list of queries and fails on the first failing one: it fails
  with the first error among all queries, and otherwise is the fold of the pure step.
\<close>

lemma foldE_first_error:
  assumes step: "\<And>s x. x \<in> set xs \<Longrightarrow>
     stepE s x = (case first_error (map d (queries x)) of
                    Some err \<Rightarrow> Inl err | None \<Rightarrow> Inr (step s x))"
  shows "foldE stepE s xs =
     (case first_error (map d (concat (map queries xs))) of
        Some err \<Rightarrow> Inl err | None \<Rightarrow> Inr (foldl step s xs))"
  using step
proof (induction xs arbitrary: s)
  case Nil
  then show ?case by simp
next
  case (Cons x xs)
  have hd: "stepE s x = (case first_error (map d (queries x)) of
                    Some err \<Rightarrow> Inl err | None \<Rightarrow> Inr (step s x))"
    by (rule Cons.prems) simp
  have tl: "foldE stepE s' xs =
     (case first_error (map d (concat (map queries xs))) of
        Some err \<Rightarrow> Inl err | None \<Rightarrow> Inr (foldl step s' xs))" for s'
    by (rule Cons.IH) (simp add: Cons.prems)
  show ?case
    by (simp add: hd tl first_error_append split: option.splits)
qed

lemma addE_first_error:
  "addE distance (d q) = (case first_error (map d [q]) of
      Some err \<Rightarrow> Inl err | None \<Rightarrow> Inr (distance + projr (d q)))"
  by (cases "d q") (simp_all add: addE_def)

lemma total_distanceE_first_error:
  "total_distanceE route d =
     (case first_error (map d (pairwise_list route)) of
        Some err \<Rightarrow> Inl err
      | None \<Rightarrow> Inr (total_distance route (\<lambda>q. projr (d q))))"
proof -
  have "foldE (\<lambda>distance (a, b). addE distance (d (a, b))) 0 (pairwise_list route) =
     (case first_error (map d (concat (map (\<lambda>q. [q]) (pairwise_list route)))) of
        Some err \<Rightarrow> Inl err
      | None \<Rightarrow> Inr (foldl (\<lambda>distance (a, b). distance + projr (d (a, b))) 0 (pairwise_list route)))"
    by (rule foldE_first_error) (auto simp: addE_first_error split: prod.splits)
  moreover have "concat (map (\<lambda>q. [q]) (pairwise_list route)) = pairwise_list route"
    by (induction "pairwise_list route") simp_all
  moreover have "total_distance route (\<lambda>q. projr (d q))
      = foldl (\<lambda>distance (a, b). distance + projr (d (a, b))) 0 (pairwise_list route)"
    by (simp add: total_distance_def)
  ultimately show ?thesis
    by (simp add: total_distanceE_def split: option.splits)
qed

lemma handRolled_distanceE_first_error:
  "handRolled_distanceE u s e d route =
     (case first_error (map d (pairwise_list route @
                                [(s, js_index u route 0),
                                 (js_index u route (int (length route) - 1), e)])) of
        Some err \<Rightarrow> Inl err
      | None \<Rightarrow> Inr (handRolled_distance u s e (\<lambda>q. projr (d q)) route))"
proof (cases "first_error (map d (pairwise_list route))")
  case (Some err)
  then show ?thesis
    by (simp add: handRolled_distanceE_def total_distanceE_first_error first_error_append)
next
  case None
  show ?thesis
  proof (cases "d (s, js_index u route 0)")
    case (Inl err)
    then show ?thesis using None
      by (simp add: handRolled_distanceE_def total_distanceE_first_error first_error_append
          addE_def)
  next
    case (Inr v)
    then show ?thesis using None
      by (cases "d (js_index u route (int (length route) - 1), e)")
        (simp_all add: handRolled_distanceE_def total_distanceE_first_error first_error_append
          addE_def handRolled_distance_def Let_def)
  qed
qed

text \<open>The two optimizers with a failing distance function, characterized.\<close>

lemma travelingSalesmanE_first_error:
  "travelingSalesmanE xs s e d =
     (case first_error (map d (travelingSalesman_queries xs s e)) of
        Some err \<Rightarrow> Inl err
      | None \<Rightarrow> Inr (travelingSalesman xs s e (\<lambda>q. projr (d q))))"
proof -
  let ?routes = "generateRoutes s e (permutations xs (length xs))"
  let ?stepE = "\<lambda>carry route. case total_distanceE route d of
                        Inl err \<Rightarrow> Inl err
                      | Inr distance \<Rightarrow> Inr (toMin_step fst carry (distance, route))"
  let ?step = "\<lambda>carry route.
      toMin_step fst carry (total_distance route (\<lambda>q. projr (d q)), route)"
  have f: "foldE ?stepE None ?routes =
     (case first_error (map d (concat (map pairwise_list ?routes))) of
        Some err \<Rightarrow> Inl err | None \<Rightarrow> Inr (foldl ?step None ?routes))"
    by (rule foldE_first_error)
      (simp add: total_distanceE_first_error split: option.splits)
  have q: "concat (map pairwise_list ?routes) = travelingSalesman_queries xs s e"
    by (simp add: travelingSalesman_queries_def generateRoutes_def comp_def)
  have t: "foldl ?step None ?routes
      = toMin (calculateDistances ?routes (\<lambda>q. projr (d q))) fst"
    by (simp add: toMin_def calculateDistances_def foldl_map)
  show ?thesis
  proof (cases "first_error (map d (travelingSalesman_queries xs s e))")
    case None
    then show ?thesis
      using f unfolding q t
      by (simp add: travelingSalesmanE_def travelingSalesman_def Let_def split: option.splits)
  next
    case (Some err)
    then show ?thesis
      using f unfolding q t
      by (simp add: travelingSalesmanE_def Let_def)
  qed
qed

lemma handRolledTravelingSalesmanE_first_error:
  "handRolledTravelingSalesmanE u xs s e d =
     (case first_error (map d (handRolled_queries u xs s e)) of
        Some err \<Rightarrow> Inl err
      | None \<Rightarrow> Inr (handRolledTravelingSalesman u xs s e (\<lambda>q. projr (d q))))"
proof -
  let ?P = "permutations xs (length xs)"
  let ?stepE = "\<lambda>best route.
                      case handRolled_distanceE u s e d route of
                        Inl err \<Rightarrow> Inl err
                      | Inr distance \<Rightarrow>
                          Inr (if distance < fst best then (distance, route) else best)"
  let ?qs = "\<lambda>p. pairwise_list p @
                        [(s, js_index u p 0), (js_index u p (int (length p) - 1), e)]"
  have f: "foldE ?stepE (top, []) ?P =
     (case first_error (map d (concat (map ?qs ?P))) of
        Some err \<Rightarrow> Inl err
      | None \<Rightarrow> Inr (foldl (handRolled_step u s e (\<lambda>q. projr (d q))) (top, []) ?P))"
    by (rule foldE_first_error)
      (simp add: handRolled_distanceE_first_error handRolled_step_def case_prod_beta
        split: option.splits)
  have q: "concat (map ?qs ?P) = handRolled_queries u xs s e"
    by (simp add: handRolled_queries_def)
  show ?thesis
  proof (cases "first_error (map d (handRolled_queries u xs s e))")
    case None
    then show ?thesis
      using f unfolding q
      by (simp add: handRolledTravelingSalesmanE_def handRolledTravelingSalesman_def Let_def
          case_prod_beta)
  next
    case (Some err)
    then show ?thesis
      using f unfolding q
      by (simp add: handRolledTravelingSalesmanE_def Let_def)
  qed
qed

subsection \<open>Claim about failures of the distance function\<close>

lemma first_error_isl:
  "(\<exists>err. first_error (map d qs) = Some err) \<longleftrightarrow> (\<exists>q \<in> set qs. isl (d q))"
proof -
  have "first_error (map d qs) \<noteq> None \<longleftrightarrow> (\<exists>q \<in> set qs. isl (d q))"
    by (simp add: first_error_None)
  then show ?thesis by auto
qed

text \<open>With a distance function that never fails the two models of each optimizer agree.\<close>

lemma travelingSalesmanE_total:
  "travelingSalesmanE xs s e (\<lambda>q. Inr (d q)) = Inr (travelingSalesman xs s e d)"
  by (auto simp: travelingSalesmanE_first_error first_error_None split: option.splits)

lemma handRolledTravelingSalesmanE_total:
  "handRolledTravelingSalesmanE u xs s e (\<lambda>q. Inr (d q))
     = Inr (handRolledTravelingSalesman u xs s e d)"
  by (auto simp: handRolledTravelingSalesmanE_first_error first_error_None split: option.splits)

text \<open>
  Claim C9.  With a distance function that may fail, each optimizer returns the error of
  the first failing call, unmodified and without a route, and otherwise the route computed
  from the distances; so it returns an error if and only if the distance function fails
  on one of the pairs the optimizer asks about.
\<close>

theorem distance_failure_propagates:
  "travelingSalesmanE xs s e d =
     (case first_error (map d (travelingSalesman_queries xs s e)) of
        Some err \<Rightarrow> Inl err
      | None \<Rightarrow> Inr (travelingSalesman xs s e (\<lambda>q. projr (d q))))
   \<and> handRolledTravelingSalesmanE u xs s e d =
     (case first_error (map d (handRolled_queries u xs s e)) of
        Some err \<Rightarrow> Inl err
      | None \<Rightarrow> Inr (handRolledTravelingSalesman u xs s e (\<lambda>q. projr (d q))))
   \<and> (isl (travelingSalesmanE xs s e d)
        \<longleftrightarrow> (\<exists>q \<in> set (travelingSalesman_queries xs s e). isl (d q)))
   \<and> (isl (handRolledTravelingSalesmanE u xs s e d)
        \<longleftrightarrow> (\<exists>q \<in> set (handRolled_queries u xs s e). isl (d q)))"
proof -
  have a: "isl (travelingSalesmanE xs s e d)
        \<longleftrightarrow> (\<exists>q \<in> set (travelingSalesman_queries xs s e). isl (d q))"
    unfolding first_error_isl [symmetric] travelingSalesmanE_first_error
    by (cases "first_error (map d (travelingSalesman_queries xs s e))") simp_all
  have b: "isl (handRolledTravelingSalesmanE u xs s e d)
        \<longleftrightarrow> (\<exists>q \<in> set (handRolled_queries u xs s e). isl (d q))"
    unfolding first_error_isl [symmetric] handRolledTravelingSalesmanE_first_error
    by (cases "first_error (map d (handRolled_queries u xs s e))") simp_all
  show ?thesis
    using a b travelingSalesmanE_first_error [of xs s e d]
      handRolledTravelingSalesmanE_first_error [of u xs s e d]
    by blast
qed

theorem distance_failure_propagates_witness:
  "travelingSalesmanE [1, 2 :: int] 0 3
      (\<lambda>(a, b). if a = 2 \<and> b = 1 then Inl ''boom'' else Inr (enat (nat \<bar>a - b\<bar>)))
     = Inl ''boom''
   \<and> handRolledTravelingSalesmanE (- 1) [1, 2 :: int] 0 3
      (\<lambda>(a, b). if a = 2 \<and> b = 1 then Inl ''boom'' else Inr (enat (nat \<bar>a - b\<bar>)))
     = Inl ''boom''
   \<and> travelingSalesman_queries [1, 2 :: int] 0 3
     = [(0, 1), (1, 2), (2, 3), (0, 2), (2, 1), (1, 3)]
   \<and> handRolled_queries (- 1) [1, 2 :: int] 0 3
     = [(1, 2), (0, 1), (2, 3), (2, 1), (0, 2), (1, 3)]"
proof -
  let ?d = "\<lambda>(a :: int, b :: int).
      if a = 2 \<and> b = 1 then Inl ''boom'' else Inr (enat (nat \<bar>a - b\<bar>))"
  have p: "permutations [1, 2 :: int] (Suc (Suc 0)) = [[1, 2], [2, 1]]"
    by (simp add: permutations_def remaining_def)
  have q1: "travelingSalesman_queries [1, 2 :: int] 0 3
     = [(0, 1), (1, 2), (2, 3), (0, 2), (2, 1), (1, 3)]"
    by (simp add: travelingSalesman_queries_def p startAndEnd_def)
  have q2: "handRolled_queries (- 1) [1, 2 :: int] 0 3
     = [(1, 2), (0, 1), (2, 3), (2, 1), (0, 2), (1, 3)]"
    by (simp add: handRolled_queries_def p js_index_def)
  have "travelingSalesmanE [1, 2 :: int] 0 3 ?d = Inl ''boom''"
    using distance_failure_propagates [of "[1, 2 :: int]" 0 3 ?d "- 1"]
    by (simp add: q1)
  moreover have "handRolledTravelingSalesmanE (- 1) [1, 2 :: int] 0 3 ?d = Inl ''boom''"
    using distance_failure_propagates [of "[1, 2 :: int]" 0 3 ?d "- 1"]
    by (simp add: q2)
  ultimately show ?thesis using q1 q2 by blast
qed

subsection \<open>The caller's arrays\<close>

lemma unchanged_refl: "unchanged h h"
  by (simp add: unchanged_def)

lemma unchanged_trans: "unchanged h h' \<Longrightarrow> unchanged h' h'' \<Longrightarrow> unchanged h h''"
proof -
  assume a: "unchanged h h'" and b: "unchanged h' h''"
  have "take (length h) h'' = take (length h) (take (length h') h'')"
    using a by (simp add: unchanged_def min_def)
  also have "\<dots> = h" using a b by (simp add: unchanged_def)
  finally show ?thesis using a b by (simp add: unchanged_def)
qed

lemma unchanged_nth: "unchanged h h' \<Longrightarrow> r < length h \<Longrightarrow> h' ! r = h ! r"
  by (metis nth_take unchanged_def)

lemma new_array_unchanged: "unchanged h (snd (new_array elems h))"
  by (simp add: unchanged_def new_array_def)

lemma new_array_unchanged': "unchanged h0 h \<Longrightarrow> unchanged h0 (snd (new_array elems h))"
  using new_array_unchanged unchanged_trans by blast

lemma new_array_fst: "fst (new_array elems h) = length h"
  by (simp add: new_array_def)

lemma array_push_unchanged:
  "length h0 \<le> r \<Longrightarrow> unchanged h0 h \<Longrightarrow> unchanged h0 (array_push r v h)"
  by (simp add: unchanged_def array_push_def)

lemma push_permutation_unchanged:
  "length h0 \<le> p \<Longrightarrow> unchanged h0 h \<Longrightarrow> unchanged h0 (push_permutation p cur h sub)"
  by (simp add: push_permutation_def new_array_def array_push_def unchanged_def)

lemma foldl_unchanged:
  assumes "\<And>s x. unchanged h0 s \<Longrightarrow> unchanged h0 (f s x)" and "unchanged h0 s"
  shows "unchanged h0 (foldl f s xs)"
  using assms(2) by (induction xs arbitrary: s) (simp_all add: assms(1))

lemma getPermutations_st_unchanged: "unchanged h (snd (getPermutations_st arr sz h))"
proof (induction sz arbitrary: arr h)
  case 0
  then show ?case by (simp add: new_array_def unchanged_def)
next
  case (Suc sz)
  let ?p = "length h"
  let ?body = "\<lambda>h i.
                 let current = h ! arr ! i;
                     (front, h) = new_array (take i (h ! arr)) h;
                     (back, h) = new_array (drop (i + 1) (h ! arr)) h;
                     (remaining, h) = new_array (h ! front @ h ! back) h;
                     (subPermutations, h) = getPermutations_st remaining sz h
                 in foldl (push_permutation ?p current) h (h ! subPermutations)"
  have body: "unchanged h (?body s i)" if s: "unchanged h s" for s i
  proof -
    obtain a1 s1 where 1: "new_array (take i (s ! arr)) s = (a1, s1)" by fastforce
    obtain a2 s2 where 2: "new_array (drop (Suc i) (s1 ! arr)) s1 = (a2, s2)" by fastforce
    obtain a3 s3 where 3: "new_array (s2 ! a1 @ s2 ! a2) s2 = (a3, s3)" by fastforce
    obtain a4 s4 where 4: "getPermutations_st a3 sz s3 = (a4, s4)" by fastforce
    have u1: "unchanged h s1" using new_array_unchanged' [OF s, of "take i (s ! arr)"] 1 by simp
    have u2: "unchanged h s2" using new_array_unchanged' [OF u1, of "drop (Suc i) (s1 ! arr)"] 2 by simp
    have u3: "unchanged h s3" using new_array_unchanged' [OF u2, of "s2 ! a1 @ s2 ! a2"] 3 by simp
    have "unchanged s3 s4" using Suc.IH [of s3 a3] 4 by simp
    then have u4: "unchanged h s4" using u3 unchanged_trans by blast
    have "unchanged h (foldl (push_permutation ?p (s ! arr ! i)) s4 (s4 ! a4))"
      by (rule foldl_unchanged) (simp_all add: push_permutation_unchanged u4)
    then show ?thesis by (simp add: 1 2 3 4 Let_def)
  qed
  have "unchanged h (foldl ?body (h @ [[]]) [0..<length ((h @ [[]]) ! arr)])"
  proof (rule foldl_unchanged)
    show "unchanged h (?body s x)" if "unchanged h s" for s x
      using that by (rule body)
    show "unchanged h (h @ [[]])"
      by (simp add: unchanged_def)
  qed
  then show ?case by (simp add: new_array_def Let_def)
qed

lemma permutations_st_unchanged: "unchanged h (snd (permutations_st data len h))"
  by (simp add: permutations_st_def getPermutations_st_unchanged)

lemma foldl_unchanged_snd:
  assumes "\<And>acc s x. unchanged h0 s \<Longrightarrow> unchanged h0 (snd (f (acc, s) x))"
    and "unchanged h0 s"
  shows "unchanged h0 (snd (foldl f (acc, s) xs))"
  using assms(2)
proof (induction xs arbitrary: acc s)
  case Nil
  then show ?case by simp
next
  case (Cons x xs)
  obtain acc' s' where f: "f (acc, s) x = (acc', s')" by fastforce
  have "unchanged h0 s'" using assms(1) [OF Cons.prems, of acc x] f by simp
  then show ?case using Cons.IH [of s' acc'] f by simp
qed

lemma travelingSalesman_st_unchanged:
  "unchanged h (snd (travelingSalesman_st innerDestinations start end d h))"
proof -
  obtain a1 s1 where 1: "new_array (h ! innerDestinations) h = (a1, s1)" by fastforce
  obtain a2 s2 where 2: "permutations_st a1 (length (s1 ! a1)) s1 = (a2, s2)" by fastforce
  let ?f = "calculateDistances_step start end d"
  obtain ds s3 where 3: "foldl ?f ([], s2) (s2 ! a2) = (ds, s3)" by fastforce
  have u1: "unchanged h s1" using new_array_unchanged [of h "h ! innerDestinations"] 1 by simp
  have "unchanged s1 s2" using permutations_st_unchanged [of s1 a1 "length (s1 ! a1)"] 2 by simp
  then have u2: "unchanged h s2" using u1 unchanged_trans by blast
  have "unchanged h (snd (foldl ?f ([], s2) (s2 ! a2)))"
  proof (rule foldl_unchanged_snd)
    show "unchanged h (snd (?f (acc, s) x))" if "unchanged h s" for acc s x
      using new_array_unchanged' [OF that]
      by (simp add: calculateDistances_step_def case_prod_beta Let_def)
    show "unchanged h s2" by (rule u2)
  qed
  then have u3: "unchanged h s3" using 3 by simp
  show ?thesis
    using u3 new_array_unchanged' [OF u3, of "[Point start, Point end]"]
    by (simp add: travelingSalesman_st_def 1 2 3 Let_def split: option.splits)
qed

lemma handRolledTravelingSalesman_st_unchanged:
  "unchanged h (snd (handRolledTravelingSalesman_st undef destinations start end d h))"
proof -
  obtain a1 s1 where 1: "new_array ([] :: 'a jsval list) h = (a1, s1)" by fastforce
  obtain a2 s2 where 2: "permutations_st destinations (length (s1 ! destinations)) s1 = (a2, s2)"
    by fastforce
  have u1: "unchanged h s1" using new_array_unchanged [of h "[]"] 1 by simp
  have "unchanged s1 s2"
    using permutations_st_unchanged [of s1 destinations "length (s1 ! destinations)"] 2 by simp
  then have u2: "unchanged h s2" using u1 unchanged_trans by blast
  show ?thesis
    using new_array_unchanged' [OF u2]
    by (simp add: handRolledTravelingSalesman_st_def 1 2 Let_def case_prod_beta)
qed

text \<open>
  Claim C10.  Neither optimizer, nor the permutation generator, writes into an array that
  exists when it is called: after the call every such array, the caller's
  \<^verbatim>\<open>innerDestinations\<close> among them, is in the store under its reference with the
  elements it had, in the same order.  (That the store models compute the routes of the
  pure models is \<open>travelingSalesman_st_correct\<close> and
  \<open>handRolledTravelingSalesman_st_correct\<close> below.)
\<close>

theorem arguments_not_mutated:
  "unchanged h (snd (travelingSalesman_st innerDestinations start end d h))
   \<and> unchanged h (snd (handRolledTravelingSalesman_st undef innerDestinations start end d h))
   \<and> unchanged h (snd (getPermutations_st innerDestinations sz h))
   \<and> (innerDestinations < length h \<longrightarrow>
        snd (travelingSalesman_st innerDestinations start end d h) ! innerDestinations
          = h ! innerDestinations
      \<and> snd (handRolledTravelingSalesman_st undef innerDestinations start end d h) ! innerDestinations
          = h ! innerDestinations
      \<and> snd (getPermutations_st innerDestinations sz h) ! innerDestinations
          = h ! innerDestinations)"
  using travelingSalesman_st_unchanged [of h innerDestinations start "end" d]
    handRolledTravelingSalesman_st_unchanged [of h undef innerDestinations start "end" d]
    getPermutations_st_unchanged [of h innerDestinations sz]
  by (simp add: unchanged_nth)

theorem arguments_not_mutated_witness:
  "(0 :: nat) < length [[Point (2 :: int), Point 1]]
   \<and> snd (travelingSalesman_st 0 0 3 (\<lambda>(a, b). enat (nat \<bar>a - b\<bar>)) [[Point (2 :: int), Point 1]]) ! 0
       = [Point 2, Point 1]
   \<and> snd (handRolledTravelingSalesman_st (- 1) 0 0 3 (\<lambda>(a, b). enat (nat \<bar>a - b\<bar>))
            [[Point (2 :: int), Point 1]]) ! 0
       = [Point 2, Point 1]
   \<and> snd (travelingSalesman_st 0 0 3 (\<lambda>(a, b). enat (nat \<bar>a - b\<bar>)) [[Point (2 :: int), Point 1]])
         ! fst (travelingSalesman_st 0 0 3 (\<lambda>(a, b). enat (nat \<bar>a - b\<bar>))
                 [[Point (2 :: int), Point 1]])
       = [Point 0, Point 1, Point 2, Point 3]"
proof -
  have "snd (travelingSalesman_st 0 0 3 (\<lambda>(a, b). enat (nat \<bar>a - b\<bar>)) [[Point (2 :: int), Point 1]])
         ! fst (travelingSalesman_st 0 0 3 (\<lambda>(a, b). enat (nat \<bar>a - b\<bar>))
                 [[Point (2 :: int), Point 1]])
       = [Point 0, Point 1, Point 2, Point 3]"
    by code_simp
  then show ?thesis
    using arguments_not_mutated [of "[[Point (2 :: int), Point 1]]" 0 0 3
        "\<lambda>(a, b). enat (nat \<bar>a - b\<bar>)" "- 1" 0]
    by simp
qed

subsection \<open>The store model against the pure model\<close>

lemma foldl_upt_invariant:
  assumes "P 0 s" and "\<And>k s. k < n \<Longrightarrow> P k s \<Longrightarrow> P (Suc k) (f s k)"
  shows "P n (foldl f s [0..<n])"
  using assms(2)
proof (induction n)
  case 0
  then show ?case using assms(1) by simp
next
  case (Suc n)
  have "P n (foldl f s [0..<n])"
    by (rule Suc.IH) (simp add: Suc.prems)
  then show ?case using Suc.prems [of n "foldl f s [0..<n]"] by simp
qed

lemma push_permutation_eq:
  "push_permutation p cur t (Ref q)
     = (t @ [cur # t ! q])[p := (t @ [cur # t ! q]) ! p @ [Ref (length t)]]"
  by (simp add: push_permutation_def new_array_def array_push_def)

text \<open>
  The inner loop of \<open>getPermutations_st\<close>: it allocates one array per sub-permutation,
  appends their references to the target, and leaves every other array as it was.
\<close>

lemma push_permutation_fold:
  assumes "p < length t" and "\<forall>q \<in> set qs. q < length t \<and> q \<noteq> p"
  shows "length (foldl (push_permutation p cur) t (map Ref qs)) = length t + length qs
    \<and> (\<forall>r < length t. r \<noteq> p \<longrightarrow> foldl (push_permutation p cur) t (map Ref qs) ! r = t ! r)
    \<and> foldl (push_permutation p cur) t (map Ref qs) ! p
        = t ! p @ map Ref [length t ..< length t + length qs]
    \<and> (\<forall>j < length qs.
          foldl (push_permutation p cur) t (map Ref qs) ! (length t + j) = cur # t ! (qs ! j))"
  using assms(2)
proof (induction qs rule: rev_induct)
  case Nil
  then show ?case by simp
next
  case (snoc q qs)
  let ?t1 = "foldl (push_permutation p cur) t (map Ref qs)"
  let ?t2 = "foldl (push_permutation p cur) t (map Ref (qs @ [q]))"
  have ih: "length ?t1 = length t + length qs"
    "\<forall>r < length t. r \<noteq> p \<longrightarrow> ?t1 ! r = t ! r"
    "?t1 ! p = t ! p @ map Ref [length t ..< length t + length qs]"
    "\<forall>j < length qs. ?t1 ! (length t + j) = cur # t ! (qs ! j)"
    using snoc by simp_all
  have q: "q < length t" "q \<noteq> p" using snoc.prems by simp_all
  have t1q: "?t1 ! q = t ! q" using ih(2) q by simp
  have t2: "?t2 = (?t1 @ [cur # t ! q])[p := (?t1 @ [cur # t ! q]) ! p @ [Ref (length ?t1)]]"
    by (simp add: push_permutation_eq t1q)
  have p1: "p < length ?t1" using assms(1) ih(1) by simp
  have a: "length ?t2 = length t + length (qs @ [q])"
    unfolding t2 by (simp add: ih(1))
  have b: "?t2 ! r = t ! r" if "r < length t" "r \<noteq> p" for r
  proof -
    have "r < length ?t1" using that ih(1) by simp
    then have "?t2 ! r = ?t1 ! r" unfolding t2 using that by (simp add: nth_append)
    then show ?thesis using ih(2) that by simp
  qed
  have c: "?t2 ! p = t ! p @ map Ref [length t ..< length t + length (qs @ [q])]"
    unfolding t2 using p1 by (simp add: nth_append ih(1) ih(3))
  have d: "?t2 ! (length t + j) = cur # t ! ((qs @ [q]) ! j)" if "j < length (qs @ [q])" for j
  proof (cases "j < length qs")
    case True
    then have "length t + j < length ?t1" "length t + j \<noteq> p"
      using ih(1) assms(1) by simp_all
    then have "?t2 ! (length t + j) = ?t1 ! (length t + j)"
      unfolding t2 by (simp add: nth_append)
    then show ?thesis using ih(4) True by (simp add: nth_append)
  next
    case False
    then have j: "j = length qs" using that by simp
    have "length t + j = length ?t1" "length t + j \<noteq> p"
      using ih(1) assms(1) j by simp_all
    then have "?t2 ! (length t + j) = cur # t ! q"
      unfolding t2 by (simp add: nth_append)
    then show ?thesis using j by simp
  qed
  show ?case using a b c d by blast
qed


lemma map_nth_upt_shift:
  "(\<forall>j < n. f (m + j) = g j) \<Longrightarrow> map f [m ..< m + n] = map g [0 ..< n]"
  by (rule nth_equalityI) simp_all

text \<open>The store model of the generator computes the permutations of the pure model.\<close>

lemma getPermutations_st_correct:
  assumes "arr < length h"
  shows "arrays_at (length h) (snd (getPermutations_st arr sz h))
           (fst (getPermutations_st arr sz h)) (getPermutations (h ! arr) sz)"
  using assms
proof (induction sz arbitrary: arr h)
  case 0
  have "arrays_at (length h) (h @ [[], [Ref (length h)]]) (Suc (length h)) [[]]"
    unfolding arrays_at_def
    by (intro conjI exI [of _ "[length h]"]) (simp_all add: nth_append)
  then show ?case by (simp add: new_array_def)
next
  case (Suc sz)
  let ?p = "length h"
  let ?A = "h ! arr"
  let ?XS = "\<lambda>k. concat (map (\<lambda>i. map (\<lambda>subPerm. ?A ! i # subPerm)
                                  (getPermutations (remaining ?A i) sz)) [0..<k])"
  let ?body = "\<lambda>h i.
                 let current = h ! arr ! i;
                     (front, h) = new_array (take i (h ! arr)) h;
                     (back, h) = new_array (drop (i + 1) (h ! arr)) h;
                     (remaining, h) = new_array (h ! front @ h ! back) h;
                     (subPermutations, h) = getPermutations_st remaining sz h
                 in foldl (push_permutation ?p current) h (h ! subPermutations)"
  let ?Inv = "\<lambda>k s. unchanged h s \<and> arrays_at ?p s ?p (?XS k)"
  have step: "?Inv (Suc k) (?body s k)" if k: "k < length ?A" and inv: "?Inv k s" for k s
  proof -
    have us: "unchanged h s" and at: "arrays_at ?p s ?p (?XS k)" using inv by simp_all
    have ps: "?p < length s" using at by (simp add: arrays_at_def)
    have sA: "s ! arr = ?A" using unchanged_nth [OF us Suc.prems] .
    obtain rs where rs: "s ! ?p = map Ref rs"
      and rs_fresh: "\<forall>r \<in> set rs. ?p \<le> r \<and> r < length s \<and> r \<noteq> ?p"
      and rs_val: "map (\<lambda>r. s ! r) rs = ?XS k"
      using at unfolding arrays_at_def by blast
    let ?s3 = "s @ [take k ?A, drop (Suc k) ?A, remaining ?A k]"
    let ?a3 = "length s + 2"
    obtain so s4 where g: "getPermutations_st ?a3 sz ?s3 = (so, s4)" by fastforce
    have body: "?body s k = foldl (push_permutation ?p (?A ! k)) s4 (s4 ! so)"
      using Suc.prems ps g
      by (simp add: new_array_def Let_def nth_append sA remaining_def)
    have a3: "?a3 < length ?s3" by simp
    have u34: "unchanged ?s3 s4"
      using getPermutations_st_unchanged [of ?s3 ?a3 sz] g by simp
    have "unchanged s ?s3" by (simp add: unchanged_def)
    then have u4: "unchanged s s4" using u34 unchanged_trans by blast
    have "arrays_at (length ?s3) s4 so (getPermutations (?s3 ! ?a3) sz)"
      using Suc.IH [OF a3] g by simp
    moreover have "?s3 ! ?a3 = remaining ?A k" by (simp add: nth_append)
    ultimately obtain qs where qs: "s4 ! so = map Ref qs"
      and qs_fresh: "\<forall>q \<in> set qs. length ?s3 \<le> q \<and> q < length s4 \<and> q \<noteq> so"
      and qs_val: "map (\<lambda>q. s4 ! q) qs = getPermutations (remaining ?A k) sz"
      unfolding arrays_at_def by auto
    let ?t = "foldl (push_permutation ?p (?A ! k)) s4 (map Ref qs)"
    have p4: "?p < length s4" using ps u4 by (simp add: unchanged_def)
    have qs_ok: "\<forall>q \<in> set qs. q < length s4 \<and> q \<noteq> ?p"
      using qs_fresh ps by auto
    note fold = push_permutation_fold [OF p4 qs_ok, of "?A ! k"]
    have t_len: "length ?t = length s4 + length qs" using fold by blast
    have t_old: "?t ! r = s4 ! r" if "r < length s4" "r \<noteq> ?p" for r
      using fold that by blast
    have t_p: "?t ! ?p = s4 ! ?p @ map Ref [length s4 ..< length s4 + length qs]"
      using fold by blast
    have t_new: "?t ! (length s4 + j) = ?A ! k # s4 ! (qs ! j)" if "j < length qs" for j
      using fold that by blast
    have s4p: "s4 ! ?p = map Ref rs" using unchanged_nth [OF u4 ps] rs by simp
    let ?rs' = "rs @ [length s4 ..< length s4 + length qs]"
    have 1: "?t ! ?p = map Ref ?rs'" using t_p s4p by simp
    have ls: "length s \<le> length s4" using u4 by (simp add: unchanged_def)
    have 2: "\<forall>r \<in> set ?rs'. ?p \<le> r \<and> r < length ?t \<and> r \<noteq> ?p"
      using rs_fresh ls p4 t_len by auto
    have "map (\<lambda>r. ?t ! r) rs = map (\<lambda>r. s ! r) rs"
    proof (rule map_cong [OF refl])
      fix r assume r: "r \<in> set rs"
      then have "r < length s" "r \<noteq> ?p" using rs_fresh by simp_all
      then show "?t ! r = s ! r"
        using t_old [of r] unchanged_nth [OF u4, of r] ls by simp
    qed
    moreover have "map (\<lambda>r. ?t ! r) [length s4 ..< length s4 + length qs]
        = map (\<lambda>j. ?A ! k # s4 ! (qs ! j)) [0 ..< length qs]"
      by (rule map_nth_upt_shift) (simp add: t_new)
    moreover have "map (\<lambda>j. ?A ! k # s4 ! (qs ! j)) [0 ..< length qs]
        = map (\<lambda>subPerm. ?A ! k # subPerm) (map (\<lambda>q. s4 ! q) qs)"
      by (rule nth_equalityI) simp_all
    ultimately have 3: "map (\<lambda>r. ?t ! r) ?rs' = ?XS (Suc k)"
      using rs_val qs_val by simp
    have "arrays_at ?p ?t ?p (?XS (Suc k))"
      unfolding arrays_at_def using 1 2 3 p4 t_len by (intro conjI exI [of _ ?rs']) simp_all
    moreover have "unchanged h ?t"
    proof (rule foldl_unchanged)
      show "unchanged h (push_permutation ?p (?A ! k) s' x)" if "unchanged h s'" for s' x
        using that by (simp add: push_permutation_unchanged)
      show "unchanged h s4" using us u4 unchanged_trans by blast
    qed
    ultimately show ?thesis unfolding body qs by simp
  qed
  have init: "?Inv 0 (h @ [[]])"
    unfolding arrays_at_def unchanged_def by simp
  have "?Inv (length ?A) (foldl ?body (h @ [[]]) [0..<length ?A])"
    by (rule foldl_upt_invariant [where P = ?Inv and f = ?body and n = "length ?A"
          and s = "h @ [[]]", OF init step])
  moreover have "(h @ [[]]) ! arr = ?A" using Suc.prems by (simp add: nth_append)
  ultimately show ?case by (simp add: new_array_def Let_def)
qed


lemma permutations_st_correct:
  assumes "data < length h"
  shows "arrays_at (length h) (snd (permutations_st data len h))
           (fst (permutations_st data len h)) (permutations (h ! data) len)"
  using getPermutations_st_correct [OF assms] by (simp add: permutations_st_def permutations_def)

text \<open>
  The references \<open>rs\<close> lead, in the store \<open>h\<close>, to arrays that hold the points of the
  lists \<open>ps\<close>.
\<close>

lemma arrays_at_points:
  assumes "arrays_at n h outer (map (map Point) ps)"
  shows "\<exists>rs. h ! outer = map Ref rs \<and> (\<forall>r \<in> set rs. r < length h)
            \<and> map (\<lambda>r. h ! r) rs = map (map Point) ps
            \<and> list_all2 (\<lambda>r p. h ! r = map Point p) rs ps"
proof -
  obtain rs where rs: "h ! outer = map Ref rs" "\<forall>r \<in> set rs. r < length h"
    and v: "map (\<lambda>r. h ! r) rs = map (map Point) ps"
    using assms unfolding arrays_at_def by blast
  have "list_all2 (=) (map (\<lambda>r. h ! r) rs) (map (map Point) ps)"
    using v by (simp add: list.rel_eq)
  then have "list_all2 (\<lambda>r p. h ! r = map Point p) rs ps"
    by (simp add: list_all2_map1 list_all2_map2)
  then show ?thesis using rs v by blast
qed

lemma calculateDistances_fold:
  assumes "map (\<lambda>r. t ! r) rs = map (map Point) ps" and "\<forall>r \<in> set rs. r < length t"
  shows "\<exists>ds t'. foldl (calculateDistances_step s e d) (acc, t) (map Ref rs) = (acc @ ds, t')
      \<and> unchanged t t'
      \<and> list_all2 (\<lambda>x p. fst x = total_distance (startAndEnd s e p) d \<and> snd x < length t'
                          \<and> t' ! snd x = map Point (startAndEnd s e p)) ds ps"
  using assms
proof (induction rs arbitrary: ps acc t)
  case Nil
  then show ?case by (simp add: unchanged_refl)
next
  case (Cons r rs)
  obtain p ps' where ps: "ps = p # ps'" using Cons.prems(1) by (cases ps) simp_all
  let ?t1 = "t @ [Point s # t ! r @ [Point e]]"
  let ?x = "(total_distance (startAndEnd s e p) d, length t)"
  have r: "r < length t" "t ! r = map Point p" using Cons.prems ps by simp_all
  have step: "calculateDistances_step s e d (acc, t) (Ref r) = (acc @ [?x], ?t1)"
    using r by (simp add: calculateDistances_step_def new_array_def startAndEnd_def comp_def)
  have tl: "map (\<lambda>r. t ! r) rs = map (map Point) ps'"
    using Cons.prems(1) ps by simp
  have "map (\<lambda>r. ?t1 ! r) rs = map (\<lambda>r. t ! r) rs"
    using Cons.prems(2) by (intro map_cong) (simp_all add: nth_append)
  then have rel: "map (\<lambda>r. ?t1 ! r) rs = map (map Point) ps'"
    using tl by (rule trans)
  have bound: "\<forall>r' \<in> set rs. r' < length ?t1" using Cons.prems by auto
  obtain ds t' where f: "foldl (calculateDistances_step s e d) (acc @ [?x], ?t1) (map Ref rs)
        = ((acc @ [?x]) @ ds, t')"
    and u: "unchanged ?t1 t'"
    and l: "list_all2 (\<lambda>x p. fst x = total_distance (startAndEnd s e p) d \<and> snd x < length t'
                          \<and> t' ! snd x = map Point (startAndEnd s e p)) ds ps'"
    using Cons.IH [OF rel bound, of "acc @ [?x]"] by blast
  have "unchanged t ?t1" by (simp add: unchanged_def)
  then have ut: "unchanged t t'" using u unchanged_trans by blast
  have "t' ! length t = ?t1 ! length t" using unchanged_nth [OF u, of "length t"] by simp
  then have hd: "t' ! length t = map Point (startAndEnd s e p)"
    using r by (simp add: startAndEnd_def)
  have lt: "length t < length t'" using u by (simp add: unchanged_def)
  show ?case
    using f ut l hd lt unfolding ps
    by (intro exI [of _ "?x # ds"] exI [of _ t']) (simp add: step)
qed

lemma toMin_rel:
  assumes "list_all2 R xs ys" and "\<And>x y. R x y \<Longrightarrow> f x = g y"
  shows "rel_option R (toMin xs f) (toMin ys g)"
proof -
  have "rel_option R (foldl (toMin_step f) c xs) (foldl (toMin_step g) c' ys)"
    if "rel_option R c c'" for c c'
    using assms(1) that
  proof (induction xs ys arbitrary: c c' rule: list_all2_induct)
    case Nil
    then show ?case by simp
  next
    case (Cons x xs y ys)
    have "rel_option R (toMin_step f c x) (toMin_step g c' y)"
      using Cons.prems Cons.hyps(1) assms(2)
      by (cases c; cases c') (auto simp: toMin_step_def)
    then show ?case using Cons.IH by simp
  qed
  then show ?thesis by (simp add: toMin_def)
qed

text \<open>
  The store models of the optimizers return an array that holds the route of the pure
  models.
\<close>

lemma travelingSalesman_st_correct:
  assumes "innerDestinations < length h" and "h ! innerDestinations = map Point xs"
  shows "snd (travelingSalesman_st innerDestinations s e d h)
           ! fst (travelingSalesman_st innerDestinations s e d h)
         = map Point (travelingSalesman xs s e d)"
proof -
  let ?s1 = "h @ [map Point xs]"
  let ?a1 = "length h"
  let ?P = "permutations xs (length xs)"
  obtain a2 s2 where 2: "permutations_st ?a1 (length xs) ?s1 = (a2, s2)" by fastforce
  have "arrays_at (length ?s1) s2 a2 (permutations (?s1 ! ?a1) (length xs))"
    using permutations_st_correct [of ?a1 ?s1 "length xs"] 2 by simp
  moreover have "permutations (?s1 ! ?a1) (length xs) = map (map Point) ?P"
    by (simp add: permutations_def getPermutations_map)
  ultimately obtain rs where rs: "s2 ! a2 = map Ref rs" "\<forall>r \<in> set rs. r < length s2"
    and rel: "map (\<lambda>r. s2 ! r) rs = map (map Point) ?P"
    using arrays_at_points [of "length ?s1" s2 a2 ?P] by auto
  obtain ds s3 where 3: "foldl (calculateDistances_step s e d) ([], s2) (map Ref rs) = (ds, s3)"
    and l: "list_all2 (\<lambda>x p. fst x = total_distance (startAndEnd s e p) d \<and> snd x < length s3
                          \<and> s3 ! snd x = map Point (startAndEnd s e p)) ds ?P"
    using calculateDistances_fold [OF rel rs(2), of s e d "[]"] by auto
  have st: "travelingSalesman_st innerDestinations s e d h =
      (case toMin ds fst of None \<Rightarrow> new_array [Point s, Point e] s3
       | Some minRoute \<Rightarrow> (snd minRoute, s3))"
    using assms 2 3 rs(1) by (simp add: travelingSalesman_st_def new_array_def Let_def)
  have m: "rel_option (\<lambda>x p. fst x = total_distance (startAndEnd s e p) d \<and> snd x < length s3
                          \<and> s3 ! snd x = map Point (startAndEnd s e p))
             (toMin ds fst) (toMin ?P (\<lambda>p. total_distance (startAndEnd s e p) d))"
    by (rule toMin_rel [OF l]) simp
  show ?thesis
  proof (cases "toMin ds fst")
    case None
    then have "toMin ?P (\<lambda>p. total_distance (startAndEnd s e p) d) = None"
      using m by (cases "toMin ?P (\<lambda>p. total_distance (startAndEnd s e p) d)") simp_all
    then show ?thesis using None
      by (simp add: st travelingSalesman_toMin new_array_def)
  next
    case (Some x)
    then obtain p where "toMin ?P (\<lambda>p. total_distance (startAndEnd s e p) d) = Some p"
      and "s3 ! snd x = map Point (startAndEnd s e p)"
      using m by (cases "toMin ?P (\<lambda>p. total_distance (startAndEnd s e p) d)") simp_all
    then show ?thesis using Some
      by (simp add: st travelingSalesman_toMin)
  qed
qed

lemma handRolled_st_fold:
  assumes "list_all2 (\<lambda>r p. t ! r = map Point p) rs ps" and "t ! ref = map Point mr"
  shows "\<exists>md' ref' mr'.
          foldl (handRolled_st_step u s e d t) (md, ref) (map Ref rs) = (md', ref')
        \<and> foldl (handRolled_step u s e d) (md, mr) ps = (md', mr')
        \<and> t ! ref' = map Point mr'"
  using assms
proof (induction rs ps arbitrary: md ref mr rule: list_all2_induct)
  case Nil
  then show ?case by simp
next
  case (Cons r rs p ps)
  let ?dist = "handRolled_distance u s e d p"
  have tp: "map the_point (t ! r) = p" using Cons.hyps(1) by (simp add: comp_def)
  show ?case
  proof (cases "?dist < md")
    case True
    have "handRolled_st_step u s e d t (md, ref) (Ref r) = (?dist, r)"
      using True by (simp add: handRolled_st_step_def tp)
    moreover have "handRolled_step u s e d (md, mr) p = (?dist, p)"
      using True by (simp add: handRolled_step_def)
    ultimately show ?thesis
      using Cons.IH [OF Cons.hyps(1), of ?dist] by simp
  next
    case False
    have "handRolled_st_step u s e d t (md, ref) (Ref r) = (md, ref)"
      using False by (simp add: handRolled_st_step_def tp)
    moreover have "handRolled_step u s e d (md, mr) p = (md, mr)"
      using False by (simp add: handRolled_step_def)
    ultimately show ?thesis
      using Cons.IH [OF Cons.prems, of md] by simp
  qed
qed

lemma handRolledTravelingSalesman_st_correct:
  assumes "destinations < length h" and "h ! destinations = map Point xs"
  shows "snd (handRolledTravelingSalesman_st u destinations s e d h)
           ! fst (handRolledTravelingSalesman_st u destinations s e d h)
         = map Point (handRolledTravelingSalesman u xs s e d)"
proof -
  let ?s1 = "h @ [[]]"
  let ?a0 = "length h"
  let ?P = "permutations xs (length xs)"
  have d1: "?s1 ! destinations = map Point xs" using assms by (simp add: nth_append)
  obtain a2 s2 where 2: "permutations_st destinations (length xs) ?s1 = (a2, s2)" by fastforce
  have "destinations < length ?s1" using assms(1) by simp
  then have "arrays_at (length ?s1) s2 a2 (permutations (?s1 ! destinations) (length xs))"
    using permutations_st_correct [of destinations ?s1 "length xs"] 2 by simp
  moreover have "permutations (?s1 ! destinations) (length xs) = map (map Point) ?P"
    unfolding d1 by (simp add: permutations_def getPermutations_map)
  ultimately obtain rs where rs: "s2 ! a2 = map Ref rs"
    and rel: "list_all2 (\<lambda>r p. s2 ! r = map Point p) rs ?P"
    using arrays_at_points [of "length ?s1" s2 a2 ?P] by auto
  have "unchanged ?s1 s2" using permutations_st_unchanged [of ?s1 destinations "length xs"] 2 by simp
  then have "s2 ! ?a0 = ?s1 ! ?a0" by (rule unchanged_nth) simp
  then have e0: "s2 ! ?a0 = map Point []" by simp
  obtain md' ref' mr' where
    f: "foldl (handRolled_st_step u s e d s2) (top, ?a0) (map Ref rs) = (md', ref')"
    and g: "foldl (handRolled_step u s e d) (top, []) ?P = (md', mr')"
    and v: "s2 ! ref' = map Point mr'"
    using handRolled_st_fold [OF rel e0, of u s e d top] by blast
  have "handRolledTravelingSalesman_st u destinations s e d h
      = (length s2, s2 @ [Point s # map Point mr' @ [Point e]])"
    using 2 rs f v d1 by (simp add: handRolledTravelingSalesman_st_def new_array_def Let_def)
  moreover have "handRolledTravelingSalesman u xs s e d = s # mr' @ [e]"
    using g by (simp add: handRolledTravelingSalesman_def Let_def)
  ultimately show ?thesis by simp
qed

end
